theory Spec2Isabelle
  imports Main "HOL-Library.Multiset" "HOL-Library.AList"
begin

section \<open>Conventions of the embedding\<close>

text \<open>
  The Go sources are embedded function by function. Go's \<open>int\<close> has 64 bits on the
  platforms the \<open>Makefile\<close> builds for (amd64 and arm64): a value is a HOL \<open>int\<close>
  in \<open>[-2 ^ 63, 2 ^ 63)\<close>, and every sum and product of the source whose operands are
  not bounded by the length of a slice is wrapped into that range by \<open>wrap64\<close>. A
  run-time panic (index out of range, slicing an empty slice, \<open>make\<close> with a negative
  length or capacity) is the value \<open>None\<close>.

  \<open>math/rand\<close> is not part of the repository. A random source is a state of an
  arbitrary type \<open>'g\<close>; \<open>rand.Intn\<close> is a parameter \<open>intn\<close> that maps a source
  and a bound to the drawn number and the advanced source, and \<open>rand.NewSource\<close>
  followed by \<open>rand.New\<close> is a parameter \<open>newSource\<close> from the seed to a source.
  What the library documents of \<open>Intn\<close>, a result in \<open>[0, n)\<close> for \<open>n > 0\<close>, is the
  predicate \<open>Intn_contract\<close>.
\<close>

type_synonym 'g Intn = "'g \<Rightarrow> int \<Rightarrow> int \<times> 'g"

definition Intn_contract :: "'g Intn \<Rightarrow> bool" where
  "Intn_contract intn \<longleftrightarrow> (\<forall>g n. 0 < n \<longrightarrow> 0 \<le> fst (intn g n) \<and> fst (intn g n) < n)"

text \<open>Two's-complement wrap-around of a 64-bit \<open>int\<close>.\<close>

definition wrap64 :: "int \<Rightarrow> int" where
  "wrap64 x = (x + 9223372036854775808) mod 18446744073709551616 - 9223372036854775808"

text \<open>Indexing a slice, \<open>xs[i]\<close>, panics outside \<open>0 \<le> i < len(xs)\<close>.\<close>

definition index :: "'a list \<Rightarrow> int \<Rightarrow> 'a option" where
  "index xs i = (if 0 \<le> i \<and> i < int (length xs) then Some (xs ! nat i) else None)"

section \<open>Package game: pieces\<close>

definition BoardWidth :: int where "BoardWidth = 10"
definition BoardHeight :: int where "BoardHeight = 20"

datatype PieceType = PieceI | PieceO | PieceT | PieceS | PieceZ | PieceJ | PieceL

record Piece =
  Type :: PieceType
  Shape :: "bool list list"
  X :: int
  Y :: int
  Color :: int

fun pieceShapes :: "PieceType \<Rightarrow> bool list list" where
  "pieceShapes PieceI =
     [[False, False, False, False],
      [True, True, True, True],
      [False, False, False, False],
      [False, False, False, False]]"
| "pieceShapes PieceO = [[True, True], [True, True]]"
| "pieceShapes PieceT = [[False, True, False], [True, True, True], [False, False, False]]"
| "pieceShapes PieceS = [[False, True, True], [True, True, False], [False, False, False]]"
| "pieceShapes PieceZ = [[True, True, False], [False, True, True], [False, False, False]]"
| "pieceShapes PieceJ = [[True, False, False], [True, True, True], [False, False, False]]"
| "pieceShapes PieceL = [[False, False, True], [True, True, True], [False, False, False]]"

fun pieceColors :: "PieceType \<Rightarrow> int" where
  "pieceColors PieceI = 6"
| "pieceColors PieceO = 3"
| "pieceColors PieceT = 5"
| "pieceColors PieceS = 2"
| "pieceColors PieceZ = 1"
| "pieceColors PieceJ = 4"
| "pieceColors PieceL = 3"

text \<open>
  \<open>NewPiece\<close> copies the shape table and centres the piece:
  \<open>X = BoardWidth/2 - len(shape[0])/2\<close>. Every shape of the table has a first row, so
  \<open>shape[0]\<close> does not panic; both dividends are non-negative, where Go's truncating
  division is \<open>div\<close>.
\<close>

definition NewPiece :: "PieceType \<Rightarrow> Piece" where
  "NewPiece t =
     (let shape = pieceShapes t in
      \<lparr>Type = t, Shape = shape,
       X = BoardWidth div 2 - int (length (hd shape)) div 2,
       Y = 0, Color = pieceColors t\<rparr>)"

section \<open>Package game: the 7-bag piece generator\<close>

record 'g PieceGenerator =
  rng :: 'g
  bag :: "PieceType list"

definition NewPieceGenerator :: "(int \<Rightarrow> 'g) \<Rightarrow> int \<Rightarrow> 'g PieceGenerator" where
  "NewPieceGenerator newSource seed = \<lparr>rng = newSource seed, bag = []\<rparr>"

text \<open>
  The Fisher-Yates loop of \<open>refillBag\<close>, \<open>for i := len(pg.bag) - 1; i > 0; i--\<close>, as
  recursion over the values of \<open>i\<close> still to visit. Each round draws
  \<open>j := pg.rng.Intn(i + 1)\<close> and swaps \<open>pg.bag[i]\<close> with \<open>pg.bag[j]\<close>; an index outside
  the bag panics.
\<close>

fun shuffle :: "'g Intn \<Rightarrow> nat list \<Rightarrow> 'g PieceGenerator \<Rightarrow> 'g PieceGenerator option" where
  "shuffle intn [] pg = Some pg"
| "shuffle intn (i # rest) pg =
     (case intn (rng pg) (int i + 1) of (j, g') \<Rightarrow>
        (case (index (bag pg) (int i), index (bag pg) j) of
           (Some bi, Some bj) \<Rightarrow>
             shuffle intn rest (pg\<lparr>rng := g', bag := (bag pg)[i := bj, nat j := bi]\<rparr>)
         | _ \<Rightarrow> None))"

definition refillBag :: "'g Intn \<Rightarrow> 'g PieceGenerator \<Rightarrow> 'g PieceGenerator option" where
  "refillBag intn pg =
     (let pg1 = pg\<lparr>bag := [PieceI, PieceO, PieceT, PieceS, PieceZ, PieceJ, PieceL]\<rparr>
      in shuffle intn (rev [1 ..< length (bag pg1)]) pg1)"

text \<open>\<open>Next\<close> refills an empty bag, then takes \<open>pg.bag[0]\<close> and keeps \<open>pg.bag[1:]\<close>.\<close>

definition Next :: "'g Intn \<Rightarrow> 'g PieceGenerator \<Rightarrow> (Piece \<times> 'g PieceGenerator) option" where
  "Next intn pg =
     (case (if length (bag pg) = 0 then refillBag intn pg else Some pg) of
        None \<Rightarrow> None
      | Some pg1 \<Rightarrow>
          (case bag pg1 of
             [] \<Rightarrow> None
           | t # rest \<Rightarrow> Some (NewPiece t, pg1\<lparr>bag := rest\<rparr>)))"

text \<open>\<open>Peek\<close> refills an empty bag and returns \<open>pg.bag[0]\<close> without removing it.\<close>

definition Peek :: "'g Intn \<Rightarrow> 'g PieceGenerator \<Rightarrow> (PieceType \<times> 'g PieceGenerator) option" where
  "Peek intn pg =
     (case (if length (bag pg) = 0 then refillBag intn pg else Some pg) of
        None \<Rightarrow> None
      | Some pg1 \<Rightarrow>
          (case bag pg1 of
             [] \<Rightarrow> None
           | t # rest \<Rightarrow> Some (t, pg1)))"

text \<open>The types of the pieces returned by \<open>n\<close> successive calls of \<open>Next\<close>.\<close>

fun NextTypes :: "'g Intn \<Rightarrow> nat \<Rightarrow> 'g PieceGenerator \<Rightarrow> (PieceType list \<times> 'g PieceGenerator) option" where
  "NextTypes intn 0 pg = Some ([], pg)"
| "NextTypes intn (Suc n) pg =
     (case Next intn pg of
        None \<Rightarrow> None
      | Some (p, pg1) \<Rightarrow>
          (case NextTypes intn n pg1 of
             None \<Rightarrow> None
           | Some (ts, pg2) \<Rightarrow> Some (Type p # ts, pg2)))"

text \<open>
  Two generators in one process, \<open>a\<close> and \<open>b\<close>, and a schedule that says which of
  them is asked for its next piece. Each generator owns the source that
  \<open>NewPieceGenerator\<close> created for it: a call changes the generator it is made on and
  nothing else. The result is the list of piece types that \<open>a\<close> returned and the list
  that \<open>b\<close> returned, each in call order.
\<close>

datatype call = CallNextA | CallNextB

fun run_calls ::
  "'g Intn \<Rightarrow> call list \<Rightarrow> 'g PieceGenerator \<Rightarrow> 'g PieceGenerator \<Rightarrow>
     (PieceType list \<times> PieceType list) option" where
  "run_calls intn [] a b = Some ([], [])"
| "run_calls intn (CallNextA # cs) a b =
     (case Next intn a of
        None \<Rightarrow> None
      | Some (p, a') \<Rightarrow>
          (case run_calls intn cs a' b of
             None \<Rightarrow> None
           | Some (as, bs) \<Rightarrow> Some (Type p # as, bs)))"
| "run_calls intn (CallNextB # cs) a b =
     (case Next intn b of
        None \<Rightarrow> None
      | Some (p, b') \<Rightarrow>
          (case run_calls intn cs a b' of
             None \<Rightarrow> None
           | Some (as, bs) \<Rightarrow> Some (as, Type p # bs)))"


section \<open>Package game: the board\<close>

record Cell =
  Filled :: bool
  Color :: int

record Board =
  Cells :: "Cell list list"
  Width :: int
  Height :: int

text \<open>The zero value of \<open>Cell\<close>, as \<open>make([]Cell, n)\<close> fills a fresh row with.\<close>

definition zeroCell :: Cell where
  "zeroCell = \<lparr>Filled = False, Color = 0\<rparr>"

definition NewBoard :: Board where
  "NewBoard =
     \<lparr>Cells = replicate (nat BoardHeight) (replicate (nat BoardWidth) zeroCell),
      Width = BoardWidth, Height = BoardHeight\<rparr>"

text \<open>
  The two nested \<open>range\<close> loops over \<open>p.Shape\<close> visit the cells of the shape row by
  row; the body of \<open>IsValidPosition\<close> and of \<open>LockPiece\<close> acts on the cells that are
  \<open>true\<close> only. \<open>shape_cells\<close> lists the \<open>(y, x)\<close> of those cells in visiting order.
\<close>

definition shape_cells :: "bool list list \<Rightarrow> (nat \<times> nat) list" where
  "shape_cells shape =
     concat (map (\<lambda>(y, row). map (\<lambda>(x, cell). (y, x)) (filter snd (enumerate 0 row)))
                 (enumerate 0 shape))"

fun valid_cells :: "Board \<Rightarrow> Piece \<Rightarrow> int \<Rightarrow> int \<Rightarrow> (nat \<times> nat) list \<Rightarrow> bool option" where
  "valid_cells b p offsetX offsetY [] = Some True"
| "valid_cells b p offsetX offsetY ((y, x) # rest) =
     (let newX = wrap64 (wrap64 (X p + int x) + offsetX);
          newY = wrap64 (wrap64 (Y p + int y) + offsetY) in
      if newX < 0 \<or> newX \<ge> Width b then Some False
      else if newY \<ge> Height b then Some False
      else if newY \<ge> 0 then
        (case index (Cells b) newY of
           None \<Rightarrow> None
         | Some row \<Rightarrow>
             (case index row newX of
                None \<Rightarrow> None
              | Some c \<Rightarrow> if Filled c then Some False
                          else valid_cells b p offsetX offsetY rest))
      else valid_cells b p offsetX offsetY rest)"

definition IsValidPosition :: "Board \<Rightarrow> Piece \<Rightarrow> int \<Rightarrow> int \<Rightarrow> bool option" where
  "IsValidPosition b p offsetX offsetY = valid_cells b p offsetX offsetY (shape_cells (Shape p))"

text \<open>\<open>Board.LockPiece\<close> stamps the cells of the piece that lie on the board.\<close>

fun stamp_cells :: "Piece \<Rightarrow> (nat \<times> nat) list \<Rightarrow> Board \<Rightarrow> Board option" where
  "stamp_cells p [] b = Some b"
| "stamp_cells p ((y, x) # rest) b =
     (let boardY = wrap64 (Y p + int y); boardX = wrap64 (X p + int x) in
      if boardY \<ge> 0 \<and> boardY < Height b \<and> boardX \<ge> 0 \<and> boardX < Width b then
        (case index (Cells b) boardY of
           None \<Rightarrow> None
         | Some row \<Rightarrow>
             if boardX < int (length row) then
               stamp_cells p rest
                 (b\<lparr>Cells := (Cells b)[nat boardY :=
                      row[nat boardX := \<lparr>Filled = True, Color = Piece.Color p\<rparr>]]\<rparr>)
             else None)
      else stamp_cells p rest b)"

definition Board_LockPiece :: "Board \<Rightarrow> Piece \<Rightarrow> Board option" where
  "Board_LockPiece b p = stamp_cells p (shape_cells (Shape p)) b"

text \<open>
  \<open>ClearLines\<close>. The inner loop \<open>for x := 0; x < b.Width; x++\<close> reads
  \<open>b.Cells[y][x]\<close> and breaks at the first cell that is not filled.
\<close>

fun line_full :: "Board \<Rightarrow> int \<Rightarrow> nat list \<Rightarrow> bool option" where
  "line_full b y [] = Some True"
| "line_full b y (x # xs) =
     (case index (Cells b) y of
        None \<Rightarrow> None
      | Some row \<Rightarrow>
          (case index row (int x) of
             None \<Rightarrow> None
           | Some c \<Rightarrow> if \<not> Filled c then Some False else line_full b y xs))"

text \<open>
  The outer loop \<open>for y := b.Height - 1; y >= 0; y--\<close>, over the values of \<open>y\<close> still
  to visit: a row that is not full is put in front of \<open>newCells\<close>, a full row is counted.
  \<open>linesCleared++\<close> runs at most once for each of the \<open>b.Height\<close> values of \<open>y\<close>,
  so the counter stays below \<open>2 ^ 63\<close> and does not wrap.
\<close>

fun clear_rows ::
  "Board \<Rightarrow> nat list \<Rightarrow> Cell list list \<times> int \<Rightarrow> (Cell list list \<times> int) option" where
  "clear_rows b [] acc = Some acc"
| "clear_rows b (y # ys) (newCells, linesCleared) =
     (case line_full b (int y) [0 ..< nat (Width b)] of
        None \<Rightarrow> None
      | Some full \<Rightarrow>
          if \<not> full then
            (case index (Cells b) (int y) of
               None \<Rightarrow> None
             | Some row \<Rightarrow> clear_rows b ys (row # newCells, linesCleared))
          else clear_rows b ys (newCells, linesCleared + 1))"

text \<open>
  The loop \<open>for len(newCells) < b.Height\<close> puts fresh empty rows on top;
  \<open>make([]Cell, b.Width)\<close> panics for a negative width. \<open>ClearLines\<close> begins with
  \<open>make([][]Cell, 0, b.Height)\<close>, which panics for a negative height.
\<close>

function pad_rows :: "Board \<Rightarrow> Cell list list \<Rightarrow> Cell list list option" where
  "pad_rows b newCells =
     (if int (length newCells) < Height b then
        (if Width b < 0 then None
         else pad_rows b (replicate (nat (Width b)) zeroCell # newCells))
      else Some newCells)"
  by pat_completeness auto
termination
  by (relation "measure (\<lambda>(b, newCells). nat (Height b - int (length newCells)))") auto

declare pad_rows.simps [simp del]

definition ClearLines :: "Board \<Rightarrow> (Board \<times> int) option" where
  "ClearLines b =
     (if Height b < 0 then None
      else
        (case clear_rows b (rev [0 ..< nat (Height b)]) ([], 0) of
           None \<Rightarrow> None
         | Some (newCells, linesCleared) \<Rightarrow>
             (case pad_rows b newCells of
                None \<Rightarrow> None
              | Some padded \<Rightarrow> Some (b\<lparr>Cells := padded\<rparr>, linesCleared))))"

text \<open>
  \<open>AddGarbageLines\<close>. The new line is filled with colour 8 except at \<open>holeX\<close>; a
  \<open>holeX\<close> outside the row leaves no hole.
\<close>

definition garbage_line :: "Board \<Rightarrow> int \<Rightarrow> Cell list" where
  "garbage_line b holeX =
     map (\<lambda>x. if int x = holeX then \<lparr>Filled = False, Color = 0\<rparr>
               else \<lparr>Filled = True, Color = 8\<rparr>)
         [0 ..< nat (Width b)]"

text \<open>
  One round of \<open>for i := 0; i < count; i++\<close> (\<open>cnt\<close> below) drops the top row (\<open>b.Cells[1:]\<close>, a
  panic on a board without rows) and appends the new line at the bottom.
\<close>

fun add_lines :: "nat \<Rightarrow> int \<Rightarrow> Board \<Rightarrow> Board option" where
  "add_lines 0 holeX b = Some b"
| "add_lines (Suc n) holeX b =
     (case Cells b of
        [] \<Rightarrow> None
      | r0 # rest \<Rightarrow>
          if Width b < 0 then None
          else add_lines n holeX (b\<lparr>Cells := rest @ [garbage_line b holeX]\<rparr>))"

definition AddGarbageLines :: "Board \<Rightarrow> int \<Rightarrow> int \<Rightarrow> Board option" where
  "AddGarbageLines b cnt holeX = add_lines (nat cnt) holeX b"

definition Board_IsGameOver :: "Board \<Rightarrow> Piece \<Rightarrow> bool option" where
  "Board_IsGameOver b p = map_option Not (IsValidPosition b p 0 0)"

text \<open>
  A board as \<open>NewBoard\<close> makes it and as every operation of the package keeps it:
  \<open>BoardHeight\<close> rows of \<open>BoardWidth\<close> cells.
\<close>

definition board_ok :: "Board \<Rightarrow> bool" where
  "board_ok b \<longleftrightarrow>
     Width b = BoardWidth \<and> Height b = BoardHeight \<and>
     int (length (Cells b)) = BoardHeight \<and>
     (\<forall>row \<in> set (Cells b). int (length row) = BoardWidth)"

text \<open>A run of line clears and garbage insertions on one board.\<close>

datatype board_op = OpClearLines | OpAddGarbageLines int int

fun apply_ops :: "board_op list \<Rightarrow> Board \<Rightarrow> Board option" where
  "apply_ops [] b = Some b"
| "apply_ops (OpClearLines # ops) b =
     (case ClearLines b of None \<Rightarrow> None | Some (b', n) \<Rightarrow> apply_ops ops b')"
| "apply_ops (OpAddGarbageLines cnt holeX # ops) b =
     (case AddGarbageLines b cnt holeX of None \<Rightarrow> None | Some b' \<Rightarrow> apply_ops ops b')"

text \<open>A row that \<open>ClearLines\<close> removes: every cell of it is filled.\<close>

definition full_row :: "Cell list \<Rightarrow> bool" where
  "full_row row \<longleftrightarrow> (\<forall>c \<in> set row. Filled c)"

section \<open>Package game: the game state\<close>

text \<open>
  \<open>CurrentPiece\<close> and \<open>NextPiece\<close> are set by both constructors and never reset to
  \<open>nil\<close>; \<open>HoldPiece\<close> starts as \<open>nil\<close>, and \<open>PieceGen\<close> is \<open>nil\<close> in a state
  made by \<open>NewGameState\<close>.
\<close>

record 'g GameState =
  Board :: Board
  CurrentPiece :: Piece
  NextPiece :: Piece
  HoldPiece :: "Piece option"
  CanHold :: bool
  Score :: int
  Level :: int
  Lines :: int
  GarbageQueue :: int
  IsGameOver :: bool
  IsWinner :: bool
  PlayerID :: string
  PlayerName :: string
  AttackPower :: int
  PieceGen :: "'g PieceGenerator option"

text \<open>
  Go's \<open>/\<close> on integers truncates towards zero, where \<open>div\<close> rounds down: the
  quotient of the absolute values, negated when the signs differ. The divisor below is
  the constant 10, so the panic of a division by zero does not arise.
\<close>

definition quo :: "int \<Rightarrow> int \<Rightarrow> int" where
  "quo a b = (if (a < 0) = (b < 0) then \<bar>a\<bar> div \<bar>b\<bar> else - (\<bar>a\<bar> div \<bar>b\<bar>))"

text \<open>\<open>RandomPiece\<close> draws from the process-wide source \<open>g\<close>.\<close>

definition RandomPiece :: "'g Intn \<Rightarrow> 'g \<Rightarrow> (Piece \<times> 'g) option" where
  "RandomPiece intn g =
     (let pieces = [PieceI, PieceO, PieceT, PieceS, PieceZ, PieceJ, PieceL] in
      case intn g (int (length pieces)) of (i, g') \<Rightarrow>
        (case index pieces i of None \<Rightarrow> None | Some t \<Rightarrow> Some (NewPiece t, g')))"

definition NewSeededGameState ::
  "'g Intn \<Rightarrow> (int \<Rightarrow> 'g) \<Rightarrow> string \<Rightarrow> string \<Rightarrow> int \<Rightarrow> 'g GameState option" where
  "NewSeededGameState intn newSource playerID playerName seed =
     (let gen = NewPieceGenerator newSource seed in
      case Next intn gen of
        None \<Rightarrow> None
      | Some (cur, gen1) \<Rightarrow>
          (case Next intn gen1 of
             None \<Rightarrow> None
           | Some (nxt, gen2) \<Rightarrow>
               Some \<lparr>Board = NewBoard, CurrentPiece = cur, NextPiece = nxt, HoldPiece = None,
                     CanHold = True, Score = 0, Level = 1, Lines = 0, GarbageQueue = 0,
                     IsGameOver = False, IsWinner = False, PlayerID = playerID,
                     PlayerName = playerName, AttackPower = 0, PieceGen = Some gen2\<rparr>))"

text \<open>
  \<open>nextPiece\<close> asks the generator when there is one, and \<open>RandomPiece\<close> otherwise. It
  returns the piece, the state (whose generator has advanced) and the process-wide source.
\<close>

definition nextPiece :: "'g Intn \<Rightarrow> 'g \<Rightarrow> 'g GameState \<Rightarrow> (Piece \<times> 'g GameState \<times> 'g) option" where
  "nextPiece intn g gs =
     (case PieceGen gs of
        Some pg \<Rightarrow>
          (case Next intn pg of
             None \<Rightarrow> None
           | Some (p, pg') \<Rightarrow> Some (p, gs\<lparr>PieceGen := Some pg'\<rparr>, g))
      | None \<Rightarrow>
          (case RandomPiece intn g of
             None \<Rightarrow> None
           | Some (p, g') \<Rightarrow> Some (p, gs, g')))"

definition baseScores :: "int \<rightharpoonup> int" where
  "baseScores = [1 \<mapsto> 100, 2 \<mapsto> 300, 3 \<mapsto> 500, 4 \<mapsto> 800]"

definition calculateScore :: "'g GameState \<Rightarrow> int \<Rightarrow> int" where
  "calculateScore gs lines =
     (case baseScores lines of Some score \<Rightarrow> wrap64 (score * Level gs) | None \<Rightarrow> 0)"

definition attackTable :: "int \<rightharpoonup> int" where
  "attackTable = [1 \<mapsto> 0, 2 \<mapsto> 1, 3 \<mapsto> 2, 4 \<mapsto> 4]"

definition calculateAttack :: "int \<Rightarrow> int" where
  "calculateAttack lines = (case attackTable lines of Some attack \<Rightarrow> attack | None \<Rightarrow> 0)"

definition ReceiveGarbage :: "'g GameState \<Rightarrow> int \<Rightarrow> 'g GameState" where
  "ReceiveGarbage gs lines = gs\<lparr>GarbageQueue := wrap64 (GarbageQueue gs + lines)\<rparr>"

text \<open>
  The block of \<open>GameState.LockPiece\<close> that applies the queued garbage: one draw
  \<open>holeX := rand.Intn(BoardWidth)\<close> from the process-wide source, one call of
  \<open>AddGarbageLines\<close> with the whole queue, and the queue is emptied.
\<close>

definition applyGarbageQueue :: "'g Intn \<Rightarrow> 'g \<Rightarrow> 'g GameState \<Rightarrow> ('g GameState \<times> 'g) option" where
  "applyGarbageQueue intn g gs =
     (if GarbageQueue gs > 0 then
        (case intn g BoardWidth of (holeX, g') \<Rightarrow>
           (case AddGarbageLines (Board gs) (GarbageQueue gs) holeX of
              None \<Rightarrow> None
            | Some b \<Rightarrow> Some (gs\<lparr>Board := b, GarbageQueue := 0\<rparr>, g')))
      else Some (gs, g))"

text \<open>
  \<open>GameState.LockPiece\<close>, statement by statement: \<open>gs.Lines += linesCleared\<close>,
  \<open>gs.Score += gs.calculateScore(linesCleared)\<close> and \<open>gs.Level = gs.Lines/10 + 1\<close>
  are 64-bit sums. The result is the new state, the number of cleared lines that the
  method returns, and the process-wide source.
\<close>

definition LockPiece :: "'g Intn \<Rightarrow> 'g \<Rightarrow> 'g GameState \<Rightarrow> ('g GameState \<times> int \<times> 'g) option" where
  "LockPiece intn g gs =
     (case Board_LockPiece (Board gs) (CurrentPiece gs) of
        None \<Rightarrow> None
      | Some b1 \<Rightarrow>
     (case ClearLines b1 of
        None \<Rightarrow> None
      | Some (b2, linesCleared) \<Rightarrow>
     (let gs1 = gs\<lparr>Board := b2\<rparr>;
          gs2 = gs1\<lparr>Lines := wrap64 (Lines gs1 + linesCleared)\<rparr>;
          gs3 = gs2\<lparr>Score := wrap64 (Score gs2 + calculateScore gs2 linesCleared)\<rparr>;
          gs4 = gs3\<lparr>Level := wrap64 (quo (Lines gs3) 10 + 1)\<rparr>;
          gs5 = gs4\<lparr>AttackPower := (if linesCleared > 0 then calculateAttack linesCleared else 0)\<rparr>;
          gs6 = gs5\<lparr>CurrentPiece := NextPiece gs5\<rparr>
      in
     (case nextPiece intn g gs6 of
        None \<Rightarrow> None
      | Some (p, gs7, g1) \<Rightarrow>
     (let gs8 = gs7\<lparr>NextPiece := p, CanHold := True\<rparr> in
     (case applyGarbageQueue intn g1 gs8 of
        None \<Rightarrow> None
      | Some (gs9, g2) \<Rightarrow>
     (case Board_IsGameOver (Board gs9) (CurrentPiece gs9) of
        None \<Rightarrow> None
      | Some over \<Rightarrow>
          Some (if over then gs9\<lparr>IsGameOver := True\<rparr> else gs9, linesCleared, g2))))))))"

text \<open>
  What a lock that applies garbage leaves to look at: the columns of the empty cells of
  each of the bottom rows of the board, as many rows as were queued, and the process-wide
  source after the lock.
\<close>

definition hole_columns :: "Cell list \<Rightarrow> nat list" where
  "hole_columns row = filter (\<lambda>x. \<not> Filled (row ! x)) [0 ..< length row]"

definition inserted_holes :: "'g Intn \<Rightarrow> 'g \<Rightarrow> 'g GameState \<Rightarrow> (nat list list \<times> 'g) option" where
  "inserted_holes intn g gs =
     (case LockPiece intn g gs of
        None \<Rightarrow> None
      | Some (gs', n, g') \<Rightarrow>
          Some (map hole_columns
                  (drop (length (Cells (Board gs')) - nat (GarbageQueue gs)) (Cells (Board gs'))),
                g'))"

text \<open>
  The specification's reading of the garbage rows, for comparison with the code: one
  draw \<open>rand.Intn(BoardWidth)\<close> for each of the \<open>k\<close> inserted rows, the row having its
  single hole at the column drawn for it.
\<close>

fun spec_holes_per_row :: "'g Intn \<Rightarrow> 'g \<Rightarrow> nat \<Rightarrow> nat list list" where
  "spec_holes_per_row intn g 0 = []"
| "spec_holes_per_row intn g (Suc k) =
     (case intn g BoardWidth of (holeX, g') \<Rightarrow> [nat holeX] # spec_holes_per_row intn g' k)"
section \<open>A sample random source\<close>

text \<open>
  A small linear congruential source that meets \<open>Intn_contract\<close>, and a scripted source
  that replays a given list of draws. They stand in for \<open>math/rand\<close> where a statement
  is evaluated on a concrete input.
\<close>

definition lcg_intn :: "int Intn" where
  "lcg_intn g n = (g mod n, (g * 1103515245 + 12345) mod 2147483648)"

definition lcg_newSource :: "int \<Rightarrow> int" where
  "lcg_newSource seed = seed mod 2147483648"

fun script_intn :: "int list Intn" where
  "script_intn [] n = (0, [])"
| "script_intn (d # ds) n = (d mod n, ds)"

text \<open>
  A game in progress: the bottom row is filled in columns 0 to 5 and the current piece,
  a flat I, hangs over the four free cells of that row. The generator and the queue of
  incoming garbage are left open.
\<close>

definition sample_board :: Board where
  "sample_board =
     NewBoard\<lparr>Cells := replicate 19 (replicate 10 zeroCell) @
       [replicate 6 \<lparr>Filled = True, Color = 1\<rparr> @ replicate 4 zeroCell]\<rparr>"

definition sample_state :: "'g PieceGenerator option \<Rightarrow> int \<Rightarrow> 'g GameState" where
  "sample_state gen queue =
     \<lparr>Board = sample_board, CurrentPiece = (NewPiece PieceI)\<lparr>X := 6, Y := 18\<rparr>,
      NextPiece = NewPiece PieceT, HoldPiece = None, CanHold = False,
      Score = 50, Level = 3, Lines = 25, GarbageQueue = queue,
      IsGameOver = False, IsWinner = False,
      PlayerID = ''player_1_1'', PlayerName = ''ann'', AttackPower = 0, PieceGen = gen\<rparr>"

section \<open>The piece generator: determinism and fairness of the bag\<close>

lemma Type_NewPiece: "Type (NewPiece t) = t"
  by (simp add: NewPiece_def Let_def)

lemma index_Some_iff: "index xs i = Some x \<longleftrightarrow> 0 \<le> i \<and> i < int (length xs) \<and> x = xs ! nat i"
  by (auto simp: index_def)

lemma shuffle_mset:
  "shuffle intn is pg = Some pg' \<Longrightarrow> mset (bag pg') = mset (bag pg)"
proof (induction "is" arbitrary: pg)
  case Nil
  then show ?case by simp
next
  case (Cons i rest)
  obtain j g' where d: "intn (rng pg) (int i + 1) = (j, g')" by (cases "intn (rng pg) (int i + 1)")
  from Cons.prems d obtain bi bj where
    bi: "index (bag pg) (int i) = Some bi" and bj: "index (bag pg) j = Some bj"
    and rec: "shuffle intn rest (pg\<lparr>rng := g', bag := (bag pg)[i := bj, nat j := bi]\<rparr>) = Some pg'"
    by (auto split: option.splits)
  from bi have i: "i < length (bag pg)" "bi = bag pg ! i" by (auto simp: index_Some_iff)
  from bj have j: "nat j < length (bag pg)" "bj = bag pg ! nat j" by (auto simp: index_Some_iff)
  have "mset (bag pg') = mset ((bag pg)[i := bj, nat j := bi])"
    using Cons.IH [OF rec] by simp
  also have "\<dots> = mset (bag pg)"
    using i j mset_swap [of "nat j" "bag pg" i] by simp
  finally show ?case .
qed

lemma shuffle_total:
  "Intn_contract intn \<Longrightarrow> \<forall>i\<in>set is. i < length (bag pg) \<Longrightarrow> \<exists>pg'. shuffle intn is pg = Some pg'"
proof (induction "is" arbitrary: pg)
  case Nil
  then show ?case by simp
next
  case (Cons i rest)
  obtain j g' where d: "intn (rng pg) (int i + 1) = (j, g')" by (cases "intn (rng pg) (int i + 1)")
  have "0 < int i + 1" by simp
  with Cons.prems(1) have "0 \<le> fst (intn (rng pg) (int i + 1)) \<and> fst (intn (rng pg) (int i + 1)) < int i + 1"
    unfolding Intn_contract_def by blast
  with d have jr: "0 \<le> j" "j < int i + 1" by simp_all
  from Cons.prems(2) have i: "i < length (bag pg)" by simp
  with jr have j: "nat j < length (bag pg)" by linarith
  let ?pg = "pg\<lparr>rng := g', bag := (bag pg)[i := bag pg ! nat j, nat j := bag pg ! i]\<rparr>"
  have "\<forall>k\<in>set rest. k < length (bag ?pg)" using Cons.prems(2) by simp
  from Cons.IH [OF Cons.prems(1) this] obtain pg' where "shuffle intn rest ?pg = Some pg'" ..
  then show ?case using d i j jr by (simp add: index_def)
qed

lemma refillBag_ok:
  assumes "Intn_contract intn"
  shows "\<exists>pg'. refillBag intn pg = Some pg' \<and>
           mset (bag pg') = mset [PieceI, PieceO, PieceT, PieceS, PieceZ, PieceJ, PieceL]"
proof -
  let ?pg1 = "pg\<lparr>bag := [PieceI, PieceO, PieceT, PieceS, PieceZ, PieceJ, PieceL]\<rparr>"
  have "\<forall>i\<in>set (rev [1 ..< length (bag ?pg1)]). i < length (bag ?pg1)" by simp
  from shuffle_total [OF assms this] obtain pg' where s: "shuffle intn (rev [1 ..< length (bag ?pg1)]) ?pg1 = Some pg'" ..
  from shuffle_mset [OF s] have "mset (bag pg') = mset (bag ?pg1)" .
  with s show ?thesis by (simp add: refillBag_def Let_def)
qed

lemma Next_nonempty:
  "bag pg = t # rest \<Longrightarrow> Next intn pg = Some (NewPiece t, pg\<lparr>bag := rest\<rparr>)"
  by (simp add: Next_def)

lemma Next_total:
  assumes "Intn_contract intn"
  shows "\<exists>p pg'. Next intn pg = Some (p, pg')"
proof (cases "bag pg")
  case Nil
  from refillBag_ok [OF assms, of pg] obtain pg1 where
    r: "refillBag intn pg = Some pg1" and m: "mset (bag pg1) = mset [PieceI, PieceO, PieceT, PieceS, PieceZ, PieceJ, PieceL]"
    by blast
  from m have "bag pg1 \<noteq> []" by auto
  then obtain t rest where "bag pg1 = t # rest" by (cases "bag pg1") auto
  with Nil r show ?thesis by (simp add: Next_def)
next
  case (Cons t rest)
  then show ?thesis by (simp add: Next_nonempty)
qed

lemma NextTypes_total:
  assumes "Intn_contract intn"
  shows "\<exists>ts pg'. NextTypes intn n pg = Some (ts, pg')"
proof (induction n arbitrary: pg)
  case 0
  show ?case by simp
next
  case (Suc n)
  from Next_total [OF assms, of pg] obtain p pg1 where n1: "Next intn pg = Some (p, pg1)" by blast
  from Suc [of pg1] obtain ts pg2 where "NextTypes intn n pg1 = Some (ts, pg2)" by blast
  with n1 show ?case by simp
qed

lemma NextTypes_length:
  "NextTypes intn n pg = Some (ts, pg') \<Longrightarrow> length ts = n"
  by (induction n arbitrary: pg ts) (auto split: option.splits prod.splits)

lemma NextTypes_add:
  "NextTypes intn (m + n) pg =
     (case NextTypes intn m pg of
        None \<Rightarrow> None
      | Some (ts, pg1) \<Rightarrow>
          (case NextTypes intn n pg1 of
             None \<Rightarrow> None
           | Some (us, pg2) \<Rightarrow> Some (ts @ us, pg2)))"
  by (induction m arbitrary: pg) (auto split: option.splits prod.splits)

lemma NextTypes_pop:
  "n \<le> length (bag pg) \<Longrightarrow>
     NextTypes intn n pg = Some (take n (bag pg), pg\<lparr>bag := drop n (bag pg)\<rparr>)"
proof (induction n arbitrary: pg)
  case 0
  show ?case by simp
next
  case (Suc n)
  then obtain t rest where b: "bag pg = t # rest" by (cases "bag pg") auto
  with Suc.prems have "n \<le> length (bag (pg\<lparr>bag := rest\<rparr>))" by simp
  from Suc.IH [OF this] b show ?case
    by (simp add: Next_nonempty Type_NewPiece)
qed

lemma NextTypes_refill:
  assumes "bag pg = []" and "refillBag intn pg = Some pg1" and "bag pg1 \<noteq> []"
  shows "NextTypes intn (Suc n) pg = NextTypes intn (Suc n) pg1"
proof -
  from assms(3) obtain t rest where "bag pg1 = t # rest" by (cases "bag pg1") auto
  with assms(1,2) have "Next intn pg = Next intn pg1" by (simp add: Next_def)
  then show ?thesis by simp
qed

lemma NextTypes_bag:
  assumes "Intn_contract intn" and "bag pg = []"
  shows "\<exists>ts pg'. NextTypes intn 7 pg = Some (ts, pg') \<and> bag pg' = [] \<and>
           mset ts = mset [PieceI, PieceO, PieceT, PieceS, PieceZ, PieceJ, PieceL]"
proof -
  from refillBag_ok [OF assms(1), of pg] obtain pg1 where
    r: "refillBag intn pg = Some pg1" and m: "mset (bag pg1) = mset [PieceI, PieceO, PieceT, PieceS, PieceZ, PieceJ, PieceL]"
    by blast
  from m have "size (mset (bag pg1)) = 7" by simp
  then have len: "length (bag pg1) = 7" by simp
  then have ne: "bag pg1 \<noteq> []" by auto
  have "NextTypes intn (Suc 6) pg = NextTypes intn (Suc 6) pg1"
    by (rule NextTypes_refill [OF assms(2) r ne])
  also have "\<dots> = Some (take 7 (bag pg1), pg1\<lparr>bag := drop 7 (bag pg1)\<rparr>)"
    using NextTypes_pop [of 7 pg1 intn] len by simp
  finally show ?thesis using len m by simp
qed

lemma NextTypes_windows:
  assumes "Intn_contract intn"
  shows "bag pg = [] \<Longrightarrow>
     \<exists>ts pg'. NextTypes intn (7 * k) pg = Some (ts, pg') \<and> bag pg' = [] \<and>
       (\<forall>w<k. mset (take 7 (drop (7 * w) ts)) =
                mset [PieceI, PieceO, PieceT, PieceS, PieceZ, PieceJ, PieceL])"
proof (induction k arbitrary: pg)
  case 0
  then show ?case by simp
next
  case (Suc k)
  from NextTypes_bag [OF assms Suc.prems] obtain ts pg1 where
    f: "NextTypes intn 7 pg = Some (ts, pg1)" and e: "bag pg1 = []"
    and m: "mset ts = mset [PieceI, PieceO, PieceT, PieceS, PieceZ, PieceJ, PieceL]"
    by blast
  from Suc.IH [OF e] obtain us pg2 where
    g: "NextTypes intn (7 * k) pg1 = Some (us, pg2)" and e2: "bag pg2 = []"
    and w: "\<forall>w<k. mset (take 7 (drop (7 * w) us)) =
                mset [PieceI, PieceO, PieceT, PieceS, PieceZ, PieceJ, PieceL]"
    by blast
  from NextTypes_length [OF f] have lt: "length ts = 7" .
  have "NextTypes intn (7 + 7 * k) pg = Some (ts @ us, pg2)"
    using f g by (simp only: NextTypes_add) simp
  then have r: "NextTypes intn (7 * Suc k) pg = Some (ts @ us, pg2)" by simp
  have "mset (take 7 (drop (7 * v) (ts @ us))) =
          mset [PieceI, PieceO, PieceT, PieceS, PieceZ, PieceJ, PieceL]" if "v < Suc k" for v
  proof (cases v)
    case 0
    with lt m show ?thesis by simp
  next
    case (Suc u)
    with that have "u < k" by simp
    with w have "mset (take 7 (drop (7 * u) us)) =
                mset [PieceI, PieceO, PieceT, PieceS, PieceZ, PieceJ, PieceL]" by blast
    moreover have "drop (7 * v) (ts @ us) = drop (7 * u) us" using Suc lt by simp
    ultimately show ?thesis by simp
  qed
  with r e2 show ?case by blast
qed

lemma lcg_contract: "Intn_contract lcg_intn"
  by (simp add: Intn_contract_def lcg_intn_def)

lemma script_contract: "Intn_contract script_intn"
  unfolding Intn_contract_def
proof (intro allI impI)
  fix g :: "int list" and n :: int
  assume "0 < n"
  then show "0 \<le> fst (script_intn g n) \<and> fst (script_intn g n) < n"
    by (cases g) simp_all
qed

lemma run_calls_NextTypes:
  "run_calls intn cs a b =
     (case NextTypes intn (count_list cs CallNextA) a of
        None \<Rightarrow> None
      | Some (as, a') \<Rightarrow>
          (case NextTypes intn (count_list cs CallNextB) b of
             None \<Rightarrow> None
           | Some (bs, b') \<Rightarrow> Some (as, bs)))"
proof (induction cs arbitrary: a b)
  case Nil
  show ?case by simp
next
  case (Cons c cs)
  show ?case
  proof (cases c)
    case CallNextA
    then show ?thesis by (simp add: Cons.IH split: option.splits prod.splits)
  next
    case CallNextB
    show ?thesis
    proof (cases "Next intn b")
      case None
      with CallNextB show ?thesis by (simp split: option.splits prod.splits)
    next
      case (Some r)
      obtain p b' where "r = (p, b')" by (cases r)
      with Some CallNextB show ?thesis
        by (cases "NextTypes intn (count_list cs CallNextA) a";
            cases "NextTypes intn (count_list cs CallNextB) b'")
           (auto simp: Cons.IH)
    qed
  qed
qed

lemma NextTypes_prefix:
  assumes "NextTypes intn m pg = Some (ts, pg1)" and "NextTypes intn n pg = Some (us, pg2)"
    and "k < m" and "k < n"
  shows "ts ! k = us ! k"
proof -
  have nth: "vs ! k = ws ! k"
    if "NextTypes intn i pg = Some (vs, p1)" and "NextTypes intn (i + d) pg = Some (ws, p2)" and "k < i"
    for i d vs ws p1 p2
  proof -
    from that(1,2) obtain xs where "ws = vs @ xs"
      by (auto simp: NextTypes_add split: option.splits prod.splits)
    moreover from that(1) have "length vs = i" by (rule NextTypes_length)
    ultimately show ?thesis using that(3) by (simp add: nth_append)
  qed
  show ?thesis
  proof (cases "m \<le> n")
    case True
    then have "n = m + (n - m)" by simp
    with assms(2) have "NextTypes intn (m + (n - m)) pg = Some (us, pg2)" by simp
    from nth [OF assms(1) this assms(3)] show ?thesis .
  next
    case False
    then have "m = n + (m - n)" by simp
    with assms(1) have "NextTypes intn (n + (m - n)) pg = Some (ts, pg1)" by simp
    from nth [OF assms(2) this assms(4)] show ?thesis by simp
  qed
qed

lemma sample_run:
  "run_calls lcg_intn [CallNextA, CallNextB, CallNextB, CallNextA, CallNextB]
     (NewPieceGenerator lcg_newSource 42) (NewPieceGenerator lcg_newSource 42)
     = Some ([PieceL, PieceT], [PieceL, PieceT, PieceJ])"
  by code_simp

text \<open>
  Claim C1. Two piece generators constructed independently with \<open>NewPieceGenerator\<close>
  from the same seed return the same piece types: whatever the order in which the two are
  asked (the schedule \<open>cs\<close>), every call returns a piece, and the \<open>n\<close>-th call of
  \<open>Next\<close> on the first returns a piece of the same type as the \<open>n\<close>-th call on the
  second.
\<close>

theorem C1_same_seed_same_sequence:
  assumes "Intn_contract intn"
  shows "\<exists>as bs.
     run_calls intn cs (NewPieceGenerator newSource seed) (NewPieceGenerator newSource seed)
       = Some (as, bs) \<and>
     length as = count_list cs CallNextA \<and> length bs = count_list cs CallNextB \<and>
     (\<forall>n. n < length as \<and> n < length bs \<longrightarrow> as ! n = bs ! n)"
proof -
  let ?pg = "NewPieceGenerator newSource seed"
  from NextTypes_total [OF assms] obtain as a' where
    a: "NextTypes intn (count_list cs CallNextA) ?pg = Some (as, a')" by blast
  from NextTypes_total [OF assms] obtain bs b' where
    b: "NextTypes intn (count_list cs CallNextB) ?pg = Some (bs, b')" by blast
  have r: "run_calls intn cs ?pg ?pg = Some (as, bs)"
    using a b by (simp add: run_calls_NextTypes)
  have la: "length as = count_list cs CallNextA" using a by (rule NextTypes_length)
  have lb: "length bs = count_list cs CallNextB" using b by (rule NextTypes_length)
  have "as ! n = bs ! n" if "n < length as \<and> n < length bs" for n
    using NextTypes_prefix [OF a b] that la lb by simp
  with r la lb show ?thesis by blast
qed

text \<open>
  Claim C2. Every complete bag of a seeded generator holds each of the 7 piece types
  exactly once: of the first \<open>7 * k\<close> pieces that \<open>Next\<close> returns, every aligned
  window of 7 (the window \<open>w\<close> starts at the \<open>w\<close>-th refill) is a permutation of the
  7 types.
\<close>

theorem C2_every_bag_is_a_permutation:
  assumes "Intn_contract intn"
  shows "\<exists>ts pg'.
     NextTypes intn (7 * k) (NewPieceGenerator newSource seed) = Some (ts, pg') \<and>
     length ts = 7 * k \<and>
     (\<forall>w<k. mset (take 7 (drop (7 * w) ts)) =
              mset [PieceI, PieceO, PieceT, PieceS, PieceZ, PieceJ, PieceL])"
proof -
  have "bag (NewPieceGenerator newSource seed) = []" by (simp add: NewPieceGenerator_def)
  from NextTypes_windows [OF assms this, of k] obtain ts pg' where
    r: "NextTypes intn (7 * k) (NewPieceGenerator newSource seed) = Some (ts, pg')"
    and w: "\<forall>w<k. mset (take 7 (drop (7 * w) ts)) =
              mset [PieceI, PieceO, PieceT, PieceS, PieceZ, PieceJ, PieceL]"
    by blast
  from NextTypes_length [OF r] r w show ?thesis by blast
qed

theorem C1_witness:
  "Intn_contract lcg_intn \<and>
   (\<exists>as bs.
     run_calls lcg_intn [CallNextA, CallNextB, CallNextB, CallNextA, CallNextB]
       (NewPieceGenerator lcg_newSource 42) (NewPieceGenerator lcg_newSource 42)
       = Some (as, bs) \<and>
     length as = count_list [CallNextA, CallNextB, CallNextB, CallNextA, CallNextB] CallNextA \<and>
     length bs = count_list [CallNextA, CallNextB, CallNextB, CallNextA, CallNextB] CallNextB \<and>
     (\<forall>n. n < length as \<and> n < length bs \<longrightarrow> as ! n = bs ! n))"
  using C1_same_seed_same_sequence [OF lcg_contract,
      of "[CallNextA, CallNextB, CallNextB, CallNextA, CallNextB]" lcg_newSource 42]
    lcg_contract
  by blast

theorem C2_witness:
  "Intn_contract lcg_intn \<and>
   (\<exists>ts pg'.
     NextTypes lcg_intn (7 * 2) (NewPieceGenerator lcg_newSource 42) = Some (ts, pg') \<and>
     length ts = 7 * 2 \<and>
     (\<forall>w<2. mset (take 7 (drop (7 * w) ts)) =
              mset [PieceI, PieceO, PieceT, PieceS, PieceZ, PieceJ, PieceL]))"
  using C2_every_bag_is_a_permutation [OF lcg_contract, of 2 lcg_newSource 42] lcg_contract
  by blast


section \<open>The board keeps its dimensions\<close>

lemma index_in_range: "0 \<le> i \<Longrightarrow> i < int (length xs) \<Longrightarrow> index xs i = Some (xs ! nat i)"
  by (simp add: index_def)

lemma index_nat: "n < length xs \<Longrightarrow> index xs (int n) = Some (xs ! n)"
  by (simp add: index_def)

lemma board_ok_dims:
  "board_ok b \<Longrightarrow> Width b = 10 \<and> Height b = 20 \<and> length (Cells b) = 20"
  by (auto simp: board_ok_def BoardWidth_def BoardHeight_def)

lemma board_ok_row:
  "board_ok b \<Longrightarrow> y < 20 \<Longrightarrow> length (Cells b ! y) = 10"
  by (auto simp: board_ok_def BoardWidth_def BoardHeight_def)

lemma board_ok_NewBoard: "board_ok NewBoard"
  by (simp add: board_ok_def NewBoard_def BoardWidth_def BoardHeight_def)

subsection \<open>ClearLines\<close>

lemma line_full_row:
  assumes "y < length (Cells b)" and "\<forall>x \<in> set xs. x < length (Cells b ! y)"
  shows "line_full b (int y) xs = Some (\<forall>x \<in> set xs. Filled (Cells b ! y ! x))"
  using assms(2)
proof (induction xs)
  case Nil
  show ?case by simp
next
  case (Cons x xs)
  then show ?case using assms(1) by (simp add: index_nat)
qed

lemma line_full_ok:
  assumes "board_ok b" and "y < 20"
  shows "line_full b (int y) [0 ..< nat (Width b)] = Some (full_row (Cells b ! y))"
proof -
  from assms have d: "Width b = 10" "length (Cells b) = 20" "length (Cells b ! y) = 10"
    by (simp_all add: board_ok_dims board_ok_row)
  have "line_full b (int y) [0 ..< nat (Width b)] =
          Some (\<forall>x \<in> set [0 ..< nat (Width b)]. Filled (Cells b ! y ! x))"
    by (rule line_full_row) (use assms d in simp_all)
  moreover have "(\<forall>x \<in> set [0 ..< nat (Width b)]. Filled (Cells b ! y ! x)) = full_row (Cells b ! y)"
    using d by (auto simp: full_row_def all_set_conv_all_nth)
  ultimately show ?thesis by simp
qed

lemma clear_rows_ok:
  assumes "board_ok b"
  shows "\<forall>y \<in> set ys. y < 20 \<Longrightarrow>
     clear_rows b ys (acc, n) =
       Some (filter (\<lambda>row. \<not> full_row row) (map (\<lambda>y. Cells b ! y) (rev ys)) @ acc,
             n + int (length (filter full_row (map (\<lambda>y. Cells b ! y) ys))))"
proof (induction ys arbitrary: acc n)
  case Nil
  show ?case by simp
next
  case (Cons y ys)
  then have y: "y < 20" and ys: "\<forall>y \<in> set ys. y < 20" by simp_all
  from board_ok_dims [OF assms] y have i: "index (Cells b) (int y) = Some (Cells b ! y)"
    by (simp add: index_nat)
  show ?case
    using line_full_ok [OF assms y] i Cons.IH [OF ys] by simp
qed

lemma pad_rows_ok:
  "0 \<le> Width b \<Longrightarrow>
     pad_rows b newCells =
       Some (replicate (nat (Height b - int (length newCells)))
               (replicate (nat (Width b)) zeroCell) @ newCells)"
proof (induction b newCells rule: pad_rows.induct)
  case (1 b newCells)
  show ?case
  proof (cases "int (length newCells) < Height b")
    case True
    with 1 have "pad_rows b (replicate (nat (Width b)) zeroCell # newCells) =
       Some (replicate (nat (Height b - int (length (replicate (nat (Width b)) zeroCell # newCells))))
               (replicate (nat (Width b)) zeroCell) @ replicate (nat (Width b)) zeroCell # newCells)"
      by simp
    moreover from True have "nat (Height b - int (length newCells)) =
        Suc (nat (Height b - int (length (replicate (nat (Width b)) zeroCell # newCells))))"
      by simp
    ultimately show ?thesis using True 1(2)
      by (subst pad_rows.simps) (simp add: replicate_app_Cons_same)
  next
    case False
    then show ?thesis by (subst pad_rows.simps) simp
  qed
qed

lemma ClearLines_ok:
  assumes "board_ok b"
  shows "ClearLines b =
     Some (b\<lparr>Cells := replicate (length (filter full_row (Cells b))) (replicate 10 zeroCell)
                         @ filter (\<lambda>row. \<not> full_row row) (Cells b)\<rparr>,
           int (length (filter full_row (Cells b))))"
proof -
  from board_ok_dims [OF assms] have d: "Width b = 10" "Height b = 20" "length (Cells b) = 20"
    by simp_all
  have m: "map (\<lambda>y. Cells b ! y) [0 ..< 20] = Cells b"
    using d map_nth [of "Cells b"] by simp
  have "\<forall>y \<in> set (rev [0 ..< nat (Height b)]). y < 20" using d by simp
  from clear_rows_ok [OF assms this, of "[]" 0]
  have c0: "clear_rows b (rev [0 ..< nat (Height b)]) ([], 0) =
      Some (filter (\<lambda>row. \<not> full_row row) (map (\<lambda>y. Cells b ! y) (rev (rev [0 ..< nat (Height b)]))) @ [],
             0 + int (length (filter full_row (map (\<lambda>y. Cells b ! y) (rev [0 ..< nat (Height b)])))))" .
  have h: "nat (Height b) = 20" using d by simp
  have "length (filter full_row (map (\<lambda>y. Cells b ! y) (rev [0 ..< 20]))) =
        length (rev (filter full_row (map (\<lambda>y. Cells b ! y) [0 ..< 20])))"
    by (simp only: rev_map rev_filter)
  then have r: "length (filter full_row (map (\<lambda>y. Cells b ! y) (rev [0 ..< 20]))) =
        length (filter full_row (Cells b))"
    by (simp only: length_rev m)
  have c: "clear_rows b (rev [0 ..< nat (Height b)]) ([], 0) =
      Some (filter (\<lambda>row. \<not> full_row row) (Cells b), int (length (filter full_row (Cells b))))"
    using c0 unfolding h rev_rev_ident m r by simp
  have l: "length (filter full_row (Cells b)) + length (filter (\<lambda>row. \<not> full_row row) (Cells b)) = 20"
    using sum_length_filter_compl [of full_row "Cells b"] d by simp
  have p: "pad_rows b (filter (\<lambda>row. \<not> full_row row) (Cells b)) =
      Some (replicate (length (filter full_row (Cells b))) (replicate 10 zeroCell)
              @ filter (\<lambda>row. \<not> full_row row) (Cells b))"
    using pad_rows_ok [of b "filter (\<lambda>row. \<not> full_row row) (Cells b)"] d l
    by simp
  have hn: "\<not> Height b < 0" using d by simp
  show ?thesis by (simp add: ClearLines_def c p hn)
qed

lemma ClearLines_board_ok:
  assumes "board_ok b"
  shows "\<exists>b' n. ClearLines b = Some (b', n) \<and> board_ok b' \<and> 0 \<le> n"
proof -
  from board_ok_dims [OF assms] have d: "Width b = 10" "Height b = 20" "length (Cells b) = 20"
    by simp_all
  have l: "length (filter full_row (Cells b)) + length (filter (\<lambda>row. \<not> full_row row) (Cells b)) = 20"
    using sum_length_filter_compl [of full_row "Cells b"] d by simp
  have "board_ok (b\<lparr>Cells := replicate (length (filter full_row (Cells b))) (replicate 10 zeroCell)
                         @ filter (\<lambda>row. \<not> full_row row) (Cells b)\<rparr>)"
    using assms l by (auto simp: board_ok_def BoardWidth_def BoardHeight_def)
  then show ?thesis by (simp add: ClearLines_ok [OF assms])
qed

subsection \<open>AddGarbageLines\<close>

lemma length_garbage_line: "length (garbage_line b holeX) = nat (Width b)"
  by (simp add: garbage_line_def)

lemma filter_neq_upt:
  "length (filter (\<lambda>x. int x \<noteq> h) [0 ..< n]) = (if 0 \<le> h \<and> h < int n then n - 1 else n)"
  by (induction n) auto

lemma garbage_line_filled:
  "length (filter Filled (garbage_line b holeX)) =
     (if 0 \<le> holeX \<and> holeX < Width b then nat (Width b) - 1 else nat (Width b))"
proof -
  have "filter Filled (garbage_line b holeX) =
          map (\<lambda>x. if int x = holeX then \<lparr>Filled = False, Color = 0\<rparr>
                    else \<lparr>Filled = True, Color = 8\<rparr>)
              (filter (\<lambda>x. int x \<noteq> holeX) [0 ..< nat (Width b)])"
    unfolding garbage_line_def filter_map
    by (rule arg_cong [where f = "map _"], rule filter_cong) auto
  then show ?thesis using filter_neq_upt [of holeX "nat (Width b)"] by auto
qed

lemma garbage_line_hole:
  "0 \<le> holeX \<Longrightarrow> holeX < Width b \<Longrightarrow> \<not> Filled (garbage_line b holeX ! nat holeX)"
  by (simp add: garbage_line_def)

lemma garbage_line_Cells [simp]: "garbage_line (b\<lparr>Cells := cs\<rparr>) holeX = garbage_line b holeX"
  by (simp add: garbage_line_def)

lemma add_lines_ok:
  "0 \<le> Width b \<Longrightarrow> Cells b \<noteq> [] \<Longrightarrow>
     add_lines n holeX b =
       Some (b\<lparr>Cells := drop n (Cells b) @
                          replicate (min n (length (Cells b))) (garbage_line b holeX)\<rparr>)"
proof (induction n arbitrary: b)
  case 0
  show ?case by simp
next
  case (Suc n)
  from Suc.prems(2) obtain r0 rest where c: "Cells b = r0 # rest" by (cases "Cells b") auto
  let ?g = "garbage_line b holeX"
  let ?b = "b\<lparr>Cells := rest @ [?g]\<rparr>"
  have "add_lines n holeX ?b =
       Some (?b\<lparr>Cells := drop n (Cells ?b) @ replicate (min n (length (Cells ?b))) (garbage_line ?b holeX)\<rparr>)"
    by (rule Suc.IH) (use Suc.prems in simp_all)
  moreover have "drop n (rest @ [?g]) @ replicate (min n (Suc (length rest))) ?g =
        drop n rest @ replicate (min (Suc n) (Suc (length rest))) ?g"
  proof (cases "n \<le> length rest")
    case True
    then show ?thesis by (simp add: min_def replicate_app_Cons_same)
  next
    case False
    then show ?thesis by (cases "n = Suc (length rest)") (simp_all add: min_def)
  qed
  ultimately show ?case using c Suc.prems(1) by simp
qed

lemma AddGarbageLines_ok:
  assumes "board_ok b"
  shows "AddGarbageLines b cnt holeX =
     Some (b\<lparr>Cells := drop (nat cnt) (Cells b) @
                        replicate (min (nat cnt) 20) (garbage_line b holeX)\<rparr>)"
proof -
  from board_ok_dims [OF assms] have d: "Width b = 10" "Height b = 20" "length (Cells b) = 20"
    by simp_all
  then have "Cells b \<noteq> []" by auto
  with d add_lines_ok [of b "nat cnt" holeX] show ?thesis
    by (simp add: AddGarbageLines_def)
qed

lemma AddGarbageLines_board_ok:
  assumes "board_ok b"
  shows "\<exists>b'. AddGarbageLines b cnt holeX = Some b' \<and> board_ok b'"
proof -
  from board_ok_dims [OF assms] have d: "Width b = 10" "Height b = 20" "length (Cells b) = 20"
    by simp_all
  have "board_ok (b\<lparr>Cells := drop (nat cnt) (Cells b) @
                        replicate (min (nat cnt) 20) (garbage_line b holeX)\<rparr>)"
    using assms d
    by (auto simp: board_ok_def BoardWidth_def BoardHeight_def length_garbage_line
             dest: in_set_dropD)
  then show ?thesis by (simp add: AddGarbageLines_ok [OF assms])
qed

lemma apply_ops_board_ok:
  "board_ok b \<Longrightarrow> \<exists>b'. apply_ops ops b = Some b' \<and> board_ok b'"
proof (induction ops arbitrary: b)
  case Nil
  then show ?case by simp
next
  case (Cons op ops)
  show ?case
  proof (cases op)
    case OpClearLines
    from ClearLines_board_ok [OF Cons.prems] obtain b1 n where
      c: "ClearLines b = Some (b1, n)" and ok: "board_ok b1" by blast
    from Cons.IH [OF ok] c OpClearLines show ?thesis by simp
  next
    case (OpAddGarbageLines cnt holeX)
    from AddGarbageLines_board_ok [OF Cons.prems] obtain b1 where
      c: "AddGarbageLines b cnt holeX = Some b1" and ok: "board_ok b1" by blast
    from Cons.IH [OF ok] c OpAddGarbageLines show ?thesis by simp
  qed
qed

text \<open>
  Claim C4. From a board of 10 by 20, every run of line clears and garbage insertions
  goes through and leaves a board of width 10 and height 20, with 20 rows of 10 cells.
  On the board it leaves, a further insertion of garbage with its hole in a column of the
  board (\<open>LockPiece\<close> draws it with \<open>rand.Intn(BoardWidth)\<close>) moves the rows up and
  appends copies of a row of 10 cells of which exactly 9 are filled.
\<close>

theorem C4_board_dimensions_and_garbage_rows:
  assumes "board_ok b"
  shows "\<exists>b'. apply_ops ops b = Some b' \<and>
           Width b' = 10 \<and> Height b' = 20 \<and> length (Cells b') = 20 \<and>
           (\<forall>row \<in> set (Cells b'). length row = 10) \<and>
           (\<forall>cnt holeX. 0 \<le> holeX \<and> holeX < 10 \<longrightarrow>
              (\<exists>b'' g. AddGarbageLines b' cnt holeX = Some b'' \<and>
                 Cells b'' = drop (nat cnt) (Cells b') @ replicate (min (nat cnt) 20) g \<and>
                 length g = 10 \<and> length (filter Filled g) = 10 - 1 \<and>
                 Width b'' = 10 \<and> Height b'' = 20 \<and> length (Cells b'') = 20))"
proof -
  from apply_ops_board_ok [OF assms] obtain b' where
    r: "apply_ops ops b = Some b'" and ok: "board_ok b'" by blast
  from board_ok_dims [OF ok] have d: "Width b' = 10" "Height b' = 20" "length (Cells b') = 20"
    by simp_all
  have rows: "\<forall>row \<in> set (Cells b'). length row = 10"
    using ok by (auto simp: board_ok_def BoardWidth_def)
  have g: "\<exists>b'' g. AddGarbageLines b' cnt holeX = Some b'' \<and>
                 Cells b'' = drop (nat cnt) (Cells b') @ replicate (min (nat cnt) 20) g \<and>
                 length g = 10 \<and> length (filter Filled g) = 10 - 1 \<and>
                 Width b'' = 10 \<and> Height b'' = 20 \<and> length (Cells b'') = 20"
    if "0 \<le> holeX \<and> holeX < 10" for cnt holeX
  proof -
    let ?g = "garbage_line b' holeX"
    let ?b = "b'\<lparr>Cells := drop (nat cnt) (Cells b') @ replicate (min (nat cnt) 20) ?g\<rparr>"
    have "AddGarbageLines b' cnt holeX = Some ?b" by (rule AddGarbageLines_ok [OF ok])
    moreover have "length ?g = 10" using d by (simp add: length_garbage_line)
    moreover have "length (filter Filled ?g) = 10 - 1"
      using that d by (simp add: garbage_line_filled)
    moreover have "length (Cells ?b) = 20" using d by (simp add: min_def)
    ultimately show ?thesis using d by auto
  qed
  from r d rows g show ?thesis by blast
qed

theorem C4_witness:
  "board_ok NewBoard \<and>
   (\<exists>b'. apply_ops [OpAddGarbageLines 2 3, OpClearLines, OpAddGarbageLines 1 0] NewBoard = Some b' \<and>
           Width b' = 10 \<and> Height b' = 20 \<and> length (Cells b') = 20 \<and>
           (\<forall>row \<in> set (Cells b'). length row = 10) \<and>
           (0 \<le> (3::int) \<and> (3::int) < 10) \<and>
           (\<exists>b'' g. AddGarbageLines b' 2 3 = Some b'' \<and>
                 Cells b'' = drop (nat 2) (Cells b') @ replicate (min (nat 2) 20) g \<and>
                 length g = 10 \<and> length (filter Filled g) = 10 - 1 \<and>
                 Width b'' = 10 \<and> Height b'' = 20 \<and> length (Cells b'') = 20))"
proof -
  from C4_board_dimensions_and_garbage_rows [OF board_ok_NewBoard,
      of "[OpAddGarbageLines 2 3, OpClearLines, OpAddGarbageLines 1 0]"]
  obtain b' where
    r: "apply_ops [OpAddGarbageLines 2 3, OpClearLines, OpAddGarbageLines 1 0] NewBoard = Some b'"
      "Width b' = 10" "Height b' = 20" "length (Cells b') = 20"
      "\<forall>row \<in> set (Cells b'). length row = 10"
    and g: "\<forall>cnt holeX. 0 \<le> holeX \<and> holeX < 10 \<longrightarrow>
              (\<exists>b'' g. AddGarbageLines b' cnt holeX = Some b'' \<and>
                 Cells b'' = drop (nat cnt) (Cells b') @ replicate (min (nat cnt) 20) g \<and>
                 length g = 10 \<and> length (filter Filled g) = 10 - 1 \<and>
                 Width b'' = 10 \<and> Height b'' = 20 \<and> length (Cells b'') = 20)"
    by blast
  have h: "0 \<le> (3::int) \<and> (3::int) < 10" by simp
  from g [rule_format, OF h, of 2] r h board_ok_NewBoard show ?thesis by blast
qed

section \<open>Locking a piece: score, level, attack and garbage\<close>

subsection \<open>Stamping a piece and testing a position\<close>

lemma board_ok_update_row:
  assumes "board_ok b" and "length r = 10"
  shows "board_ok (b\<lparr>Cells := (Cells b)[y := r]\<rparr>)"
proof -
  have "set ((Cells b)[y := r]) \<subseteq> insert r (set (Cells b))"
    by (rule set_update_subset_insert)
  with assms show ?thesis
    by (auto simp: board_ok_def BoardWidth_def BoardHeight_def)
qed

lemma stamp_cells_ok:
  "board_ok b \<Longrightarrow> \<exists>b'. stamp_cells p cs b = Some b' \<and> board_ok b'"
proof (induction cs arbitrary: b)
  case Nil
  then show ?case by simp
next
  case (Cons c cs)
  obtain y x where c: "c = (y, x)" by (cases c)
  from board_ok_dims [OF Cons.prems] have d: "Width b = 10" "Height b = 20" "length (Cells b) = 20"
    by simp_all
  let ?Y = "wrap64 (Y p + int y)" and ?X = "wrap64 (X p + int x)"
  show ?case
  proof (cases "?Y \<ge> 0 \<and> ?Y < Height b \<and> ?X \<ge> 0 \<and> ?X < Width b")
    case True
    with d have yr: "nat ?Y < 20" by linarith
    from True d have i: "index (Cells b) ?Y = Some (Cells b ! nat ?Y)"
      by (simp add: index_def)
    from board_ok_row [OF Cons.prems yr] have l: "length (Cells b ! nat ?Y) = 10" .
    let ?b = "b\<lparr>Cells := (Cells b)[nat ?Y :=
                (Cells b ! nat ?Y)[nat ?X := \<lparr>Filled = True, Color = Piece.Color p\<rparr>]]\<rparr>"
    have "board_ok ?b" by (rule board_ok_update_row [OF Cons.prems]) (simp add: l)
    from Cons.IH [OF this] obtain b' where "stamp_cells p cs ?b = Some b'" "board_ok b'" by blast
    with True i l d c show ?thesis by (simp add: Let_def)
  next
    case False
    from Cons.IH [OF Cons.prems] obtain b' where "stamp_cells p cs b = Some b'" "board_ok b'" by blast
    with False c show ?thesis by (auto simp: Let_def)
  qed
qed

lemma Board_LockPiece_ok:
  "board_ok b \<Longrightarrow> \<exists>b'. Board_LockPiece b p = Some b' \<and> board_ok b'"
  unfolding Board_LockPiece_def by (rule stamp_cells_ok)

lemma valid_cells_total:
  assumes "board_ok b"
  shows "valid_cells b p ox oy cs \<noteq> None"
proof (induction cs)
  case Nil
  show ?case by simp
next
  case (Cons c cs)
  obtain y x where c: "c = (y, x)" by (cases c)
  from board_ok_dims [OF assms] have d: "Width b = 10" "Height b = 20" "length (Cells b) = 20"
    by simp_all
  let ?Y = "wrap64 (wrap64 (Y p + int y) + oy)" and ?X = "wrap64 (wrap64 (X p + int x) + ox)"
  note v = Cons.IH
  show ?case
  proof (cases "?X < 0 \<or> ?X \<ge> Width b \<or> ?Y \<ge> Height b \<or> ?Y < 0")
    case True
    then consider "?X < 0 \<or> ?X \<ge> Width b" | "\<not> (?X < 0 \<or> ?X \<ge> Width b)" "?Y \<ge> Height b"
      | "\<not> (?X < 0 \<or> ?X \<ge> Width b)" "\<not> ?Y \<ge> Height b" "?Y < 0"
      by blast
    then show ?thesis
    proof cases
      case 1
      with c show ?thesis by (auto simp: Let_def)
    next
      case 2
      with c show ?thesis by (auto simp: Let_def)
    next
      case 3
      with c v show ?thesis by (auto simp: Let_def)
    qed
  next
    case False
    with d have yr: "nat ?Y < 20" by linarith
    from False d have i: "index (Cells b) ?Y = Some (Cells b ! nat ?Y)"
      by (simp add: index_def)
    from board_ok_row [OF assms yr] have l: "length (Cells b ! nat ?Y) = 10" .
    with False d have j: "index (Cells b ! nat ?Y) ?X = Some (Cells b ! nat ?Y ! nat ?X)"
      by (simp add: index_def)
    from False c v i j show ?thesis by (auto simp: Let_def)
  qed
qed

lemma Board_IsGameOver_total:
  "board_ok b \<Longrightarrow> \<exists>v. Board_IsGameOver b p = Some v"
  using valid_cells_total [of b p 0 0 "shape_cells (Shape p)"]
  by (auto simp: Board_IsGameOver_def IsValidPosition_def)

subsection \<open>The next piece\<close>

lemma RandomPiece_total:
  assumes "Intn_contract intn"
  shows "\<exists>p g'. RandomPiece intn g = Some (p, g')"
proof -
  obtain i g' where d: "intn g 7 = (i, g')" by (cases "intn g 7")
  from assms have "0 \<le> fst (intn g 7) \<and> fst (intn g 7) < 7"
    unfolding Intn_contract_def by simp
  with d have "0 \<le> i" "i < 7" by simp_all
  with d show ?thesis by (simp add: RandomPiece_def index_def)
qed

lemma nextPiece_total:
  assumes "Intn_contract intn"
  shows "\<exists>p pg g'. nextPiece intn g gs = Some (p, gs\<lparr>PieceGen := pg\<rparr>, g') \<and>
           (PieceGen gs \<noteq> None \<longrightarrow> g' = g)"
proof (cases "PieceGen gs")
  case None
  from RandomPiece_total [OF assms, of g] obtain p g' where "RandomPiece intn g = Some (p, g')"
    by blast
  with None have "nextPiece intn g gs = Some (p, gs\<lparr>PieceGen := None\<rparr>, g')"
    by (simp add: nextPiece_def)
  with None show ?thesis by blast
next
  case (Some pg)
  from Next_total [OF assms, of pg] obtain p pg' where "Next intn pg = Some (p, pg')" by blast
  with Some have "nextPiece intn g gs = Some (p, gs\<lparr>PieceGen := Some pg'\<rparr>, g)"
    by (simp add: nextPiece_def)
  then show ?thesis by blast
qed

subsection \<open>Locking a piece\<close>

lemma applyGarbageQueue_idle:
  "\<not> 0 < GarbageQueue gs \<Longrightarrow> applyGarbageQueue intn g gs = Some (gs, g)"
  by (simp add: applyGarbageQueue_def)

lemma applyGarbageQueue_ok:
  assumes "board_ok (Board gs)" and "0 < GarbageQueue gs"
  shows "applyGarbageQueue intn g gs =
     Some (gs\<lparr>Board := (Board gs)\<lparr>Cells := drop (nat (GarbageQueue gs)) (Cells (Board gs)) @
               replicate (min (nat (GarbageQueue gs)) 20)
                 (garbage_line (Board gs) (fst (intn g BoardWidth)))\<rparr>,
               GarbageQueue := 0\<rparr>,
           snd (intn g BoardWidth))"
  using assms(2) AddGarbageLines_ok [OF assms(1)]
  by (simp add: applyGarbageQueue_def split: prod.splits)

lemma applyGarbageQueue_total:
  assumes "board_ok (Board gs)"
  shows "\<exists>bq q g2. applyGarbageQueue intn g gs = Some (gs\<lparr>Board := bq, GarbageQueue := q\<rparr>, g2) \<and>
           board_ok bq"
proof (cases "0 < GarbageQueue gs")
  case True
  let ?bq = "(Board gs)\<lparr>Cells := drop (nat (GarbageQueue gs)) (Cells (Board gs)) @
               replicate (min (nat (GarbageQueue gs)) 20)
                 (garbage_line (Board gs) (fst (intn g BoardWidth)))\<rparr>"
  from AddGarbageLines_board_ok [OF assms, of "GarbageQueue gs" "fst (intn g BoardWidth)"]
  have "board_ok ?bq" by (simp add: AddGarbageLines_ok [OF assms])
  with applyGarbageQueue_ok [OF assms True, of intn g] show ?thesis by blast
next
  case False
  have "gs = gs\<lparr>Board := Board gs, GarbageQueue := GarbageQueue gs\<rparr>" by simp
  with applyGarbageQueue_idle [OF False, of intn g] assms show ?thesis by metis
qed

lemma calculateScore_Level:
  "Level gs1 = Level gs \<Longrightarrow> calculateScore gs1 n = calculateScore gs n"
  by (cases "baseScores n") (simp_all add: calculateScore_def)

lemma calculateScore_update:
  "calculateScore (gs\<lparr>Board := b\<rparr>) n = calculateScore gs n"
  "calculateScore (gs\<lparr>Lines := l\<rparr>) n = calculateScore gs n"
  by (rule calculateScore_Level, simp)+

lemma LockPiece_ok:
  assumes ok: "board_ok (Board gs)" and c: "Intn_contract intn"
  shows "\<exists>b1 b2 n p pg g1 bq q g2 over.
     Board_LockPiece (Board gs) (CurrentPiece gs) = Some b1 \<and>
     ClearLines b1 = Some (b2, n) \<and> board_ok b2 \<and> 0 \<le> n \<and>
     (PieceGen gs \<noteq> None \<longrightarrow> g1 = g) \<and>
     applyGarbageQueue intn g1 (gs\<lparr>Board := b2\<rparr>) =
       Some (gs\<lparr>Board := bq, GarbageQueue := q\<rparr>, g2) \<and>
     LockPiece intn g gs =
       Some (gs\<lparr>Board := bq, Lines := wrap64 (Lines gs + n),
                Score := wrap64 (Score gs + calculateScore gs n),
                Level := wrap64 (quo (wrap64 (Lines gs + n)) 10 + 1),
                AttackPower := (if n > 0 then calculateAttack n else 0),
                CurrentPiece := NextPiece gs, PieceGen := pg, NextPiece := p,
                CanHold := True, GarbageQueue := q,
                IsGameOver := (over \<or> IsGameOver gs)\<rparr>, n, g2)"
proof -
  from Board_LockPiece_ok [OF ok] obtain b1 where
    s1: "Board_LockPiece (Board gs) (CurrentPiece gs) = Some b1" and ok1: "board_ok b1" by blast
  from ClearLines_board_ok [OF ok1] obtain b2 n where
    s2: "ClearLines b1 = Some (b2, n)" and ok2: "board_ok b2" and n0: "0 \<le> n" by blast
  let ?gs1 = "gs\<lparr>Board := b2\<rparr>"
  let ?gs2 = "?gs1\<lparr>Lines := wrap64 (Lines ?gs1 + n)\<rparr>"
  let ?gs3 = "?gs2\<lparr>Score := wrap64 (Score ?gs2 + calculateScore ?gs2 n)\<rparr>"
  let ?gs4 = "?gs3\<lparr>Level := wrap64 (quo (Lines ?gs3) 10 + 1)\<rparr>"
  let ?gs5 = "?gs4\<lparr>AttackPower := (if n > 0 then calculateAttack n else 0)\<rparr>"
  let ?gs6 = "?gs5\<lparr>CurrentPiece := NextPiece ?gs5\<rparr>"
  from nextPiece_total [OF c, of g ?gs6] obtain p pg g1 where
    s3: "nextPiece intn g ?gs6 = Some (p, ?gs6\<lparr>PieceGen := pg\<rparr>, g1)"
    and g1: "PieceGen ?gs6 \<noteq> None \<longrightarrow> g1 = g" by blast
  let ?gs7 = "?gs6\<lparr>PieceGen := pg\<rparr>"
  let ?gs8 = "?gs7\<lparr>NextPiece := p, CanHold := True\<rparr>"
  have ok8: "board_ok (Board ?gs8)" using ok2 by simp
  from applyGarbageQueue_total [OF ok8, of intn g1] obtain bq q g2 where
    s4: "applyGarbageQueue intn g1 ?gs8 = Some (?gs8\<lparr>Board := bq, GarbageQueue := q\<rparr>, g2)"
    and okq: "board_ok bq" by blast
  let ?gs9 = "?gs8\<lparr>Board := bq, GarbageQueue := q\<rparr>"
  have "board_ok (Board ?gs9)" using okq by simp
  from Board_IsGameOver_total [OF this, of "CurrentPiece ?gs9"] obtain over where
    s5: "Board_IsGameOver (Board ?gs9) (CurrentPiece ?gs9) = Some over" by blast
  have L: "LockPiece intn g gs = Some (if over then ?gs9\<lparr>IsGameOver := True\<rparr> else ?gs9, n, g2)"
    unfolding LockPiece_def Let_def
    by (simp only: s1 s2 s3 s4 s5 option.case prod.case)
  have a: "applyGarbageQueue intn g1 (gs\<lparr>Board := b2\<rparr>) =
       Some (gs\<lparr>Board := bq, GarbageQueue := q\<rparr>, g2)"
  proof (cases "0 < GarbageQueue gs")
    case True
    then have t8: "0 < GarbageQueue ?gs8" and t1: "0 < GarbageQueue (gs\<lparr>Board := b2\<rparr>)" by simp_all
    have o1: "board_ok (Board (gs\<lparr>Board := b2\<rparr>))" using ok2 by simp
    from s4 [unfolded applyGarbageQueue_ok [OF ok8 t8]]
    have "bq = b2\<lparr>Cells := drop (nat (GarbageQueue gs)) (Cells b2) @
               replicate (min (nat (GarbageQueue gs)) 20)
                 (garbage_line b2 (fst (intn g1 BoardWidth)))\<rparr>"
      and "q = 0" and "g2 = snd (intn g1 BoardWidth)"
      by (auto dest: arg_cong [where f = Board] arg_cong [where f = GarbageQueue])
    then show ?thesis using applyGarbageQueue_ok [OF o1 t1, of intn g1] by simp
  next
    case False
    then have f8: "\<not> 0 < GarbageQueue ?gs8" and f1: "\<not> 0 < GarbageQueue (gs\<lparr>Board := b2\<rparr>)" by simp_all
    from s4 [unfolded applyGarbageQueue_idle [OF f8]]
    have "bq = b2" and "q = GarbageQueue gs" and "g2 = g1"
      by (auto dest: arg_cong [where f = Board] arg_cong [where f = GarbageQueue])
    then show ?thesis using applyGarbageQueue_idle [OF f1, of intn g1] by simp
  qed
  have e: "(if over then ?gs9\<lparr>IsGameOver := True\<rparr> else ?gs9) =
        gs\<lparr>Board := bq, Lines := wrap64 (Lines gs + n),
                Score := wrap64 (Score gs + calculateScore gs n),
                Level := wrap64 (quo (wrap64 (Lines gs + n)) 10 + 1),
                AttackPower := (if n > 0 then calculateAttack n else 0),
                CurrentPiece := NextPiece gs, PieceGen := pg, NextPiece := p,
                CanHold := True, GarbageQueue := q,
                IsGameOver := (over \<or> IsGameOver gs)\<rparr>"
    by (cases over) (simp_all add: calculateScore_update)
  from g1 have "PieceGen gs \<noteq> None \<longrightarrow> g1 = g" by simp
  with s1 s2 ok2 n0 a L [unfolded e] show ?thesis by blast
qed

lemma board_ok_sample_board: "board_ok sample_board"
  by (auto simp: board_ok_def sample_board_def NewBoard_def BoardWidth_def BoardHeight_def)

lemma quo_nonneg: "0 \<le> a \<Longrightarrow> quo a 10 = a div 10"
  by (simp add: quo_def)

lemma wrap64_id: "- 9223372036854775808 \<le> x \<Longrightarrow> x < 9223372036854775808 \<Longrightarrow> wrap64 x = x"
  by (simp add: wrap64_def)

lemma quo_bounds: "\<bar>quo a 10\<bar> \<le> \<bar>a\<bar>"
  by (auto simp: quo_def)

lemma full_rows_le: "board_ok b \<Longrightarrow> int (length (filter full_row (Cells b))) \<le> 20"
proof -
  assume "board_ok b"
  from board_ok_dims [OF this] have "length (Cells b) = 20" by simp
  with length_filter_le [of full_row "Cells b"] show ?thesis by simp
qed

text \<open>
  Claim C3. A lock on a well-formed game state whose counters are far from the ends of
  the 64-bit range (score and lines below \<open>2 ^ 62\<close>, level below \<open>2 ^ 52\<close> in absolute
  value) goes through, and the number \<open>n\<close> it returns is the number of full rows of the
  board on which the piece was stamped, the rows that \<open>ClearLines\<close> removes. The total
  of lines grows by \<open>n\<close> and the level becomes that total divided by 10, plus 1. When
  \<open>n \<in> {1, 2, 3, 4}\<close> and the level before the lock is \<open>L\<close>, the score grows by
  \<open>{100, 300, 500, 800}[n - 1] * L\<close> and the attack power becomes 0, 1, 2 or 4; when
  no line is cleared, the score is unchanged and the attack power becomes 0.
\<close>

theorem C3_lock_score_level_attack:
  assumes "board_ok (Board gs)" and "Intn_contract intn"
    and "\<bar>Score gs\<bar> < 2 ^ 62" and "\<bar>Lines gs\<bar> < 2 ^ 62" and "\<bar>Level gs\<bar> < 2 ^ 52"
  shows "\<exists>gs' n g' b1 b2. LockPiece intn g gs = Some (gs', n, g') \<and>
     Board_LockPiece (Board gs) (CurrentPiece gs) = Some b1 \<and>
     ClearLines b1 = Some (b2, n) \<and>
     n = int (length (filter full_row (Cells b1))) \<and>
     Lines gs' = Lines gs + n \<and>
     Level gs' = quo (Lines gs') 10 + 1 \<and>
     (0 \<le> Lines gs \<longrightarrow> Level gs' = (Lines gs + n) div 10 + 1) \<and>
     (n \<in> {1, 2, 3, 4} \<longrightarrow>
        Score gs' = Score gs + [100, 300, 500, 800] ! nat (n - 1) * Level gs \<and>
        AttackPower gs' = [0, 1, 2, 4] ! nat (n - 1)) \<and>
     (n = 0 \<longrightarrow> Score gs' = Score gs \<and> AttackPower gs' = 0)"
proof -
  from LockPiece_ok [OF assms(1,2), of g] obtain b1 b2 n p pg bq q g2 over where
    s1: "Board_LockPiece (Board gs) (CurrentPiece gs) = Some b1"
    and s2: "ClearLines b1 = Some (b2, n)"
    and L: "LockPiece intn g gs =
       Some (gs\<lparr>Board := bq, Lines := wrap64 (Lines gs + n),
                Score := wrap64 (Score gs + calculateScore gs n),
                Level := wrap64 (quo (wrap64 (Lines gs + n)) 10 + 1),
                AttackPower := (if n > 0 then calculateAttack n else 0),
                CurrentPiece := NextPiece gs, PieceGen := pg, NextPiece := p,
                CanHold := True, GarbageQueue := q,
                IsGameOver := (over \<or> IsGameOver gs)\<rparr>, n, g2)"
    by blast
  from Board_LockPiece_ok [OF assms(1), of "CurrentPiece gs"] s1 have ok1: "board_ok b1" by simp
  from s2 ClearLines_ok [OF ok1] have n: "n = int (length (filter full_row (Cells b1)))" by simp
  from n full_rows_le [OF ok1] have nr: "0 \<le> n" "n \<le> 20" by simp_all
  from assms(3,4,5) have r: "\<bar>Score gs\<bar> < 4611686018427387904"
    "\<bar>Lines gs\<bar> < 4611686018427387904" "\<bar>Level gs\<bar> < 4503599627370496" by simp_all
  have wl: "wrap64 (Lines gs + n) = Lines gs + n"
    using r nr by (intro wrap64_id) linarith+
  from quo_bounds [of "Lines gs + n"] r nr
  have "\<bar>quo (Lines gs + n) 10\<bar> < 4611686018427387924" by linarith
  then have wv: "wrap64 (quo (Lines gs + n) 10 + 1) = quo (Lines gs + n) 10 + 1"
    by (intro wrap64_id) linarith+
  have d: "quo (Lines gs + n) 10 = (Lines gs + n) div 10" if "0 \<le> Lines gs"
    using that nr by (intro quo_nonneg) simp
  have wp: "wrap64 (k * Level gs) = k * Level gs" if "0 \<le> k" "k \<le> 800" for k
  proof -
    have "\<bar>k * Level gs\<bar> = k * \<bar>Level gs\<bar>" using that by (simp add: abs_mult)
    also have "\<dots> \<le> 800 * \<bar>Level gs\<bar>" using that by (intro mult_right_mono) simp_all
    finally have "\<bar>k * Level gs\<bar> < 3602879701896396800" using r by linarith
    then show ?thesis by (intro wrap64_id) linarith+
  qed
  have c: "calculateScore gs n = [100, 300, 500, 800] ! nat (n - 1) * Level gs"
    and b: "\<bar>calculateScore gs n\<bar> < 3602879701896396800"
    and a: "calculateAttack n = [0, 1, 2, 4] ! nat (n - 1)" if "n \<in> {1, 2, 3, 4}"
    using that r wp [of 100] wp [of 300] wp [of 500] wp [of 800]
    by (auto simp: calculateScore_def baseScores_def calculateAttack_def attackTable_def)
  have c0: "calculateScore gs 0 = 0"
    by (simp add: calculateScore_def baseScores_def)
  have ws: "wrap64 (Score gs + calculateScore gs n) = Score gs + calculateScore gs n"
    if "n \<in> {1, 2, 3, 4}"
    using r b [OF that] by (intro wrap64_id) linarith+
  have ws0: "wrap64 (Score gs + 0) = Score gs"
    using r by (simp add: wrap64_id)
  show ?thesis
    unfolding L using s1 s2 n wl wv d ws c a c0 ws0 by auto
qed

theorem C3_witness:
  "board_ok (Board (sample_state (Some (NewPieceGenerator lcg_newSource 42)) 0)) \<and>
   Intn_contract lcg_intn \<and>
   \<bar>Score (sample_state (Some (NewPieceGenerator lcg_newSource 42)) 0)\<bar> < 2 ^ 62 \<and>
   \<bar>Lines (sample_state (Some (NewPieceGenerator lcg_newSource 42)) 0)\<bar> < 2 ^ 62 \<and>
   \<bar>Level (sample_state (Some (NewPieceGenerator lcg_newSource 42)) 0)\<bar> < 2 ^ 52 \<and>
   (\<exists>gs' g' b1 b2.
      LockPiece lcg_intn 7 (sample_state (Some (NewPieceGenerator lcg_newSource 42)) 0)
       = Some (gs', 1, g') \<and>
      Board_LockPiece (Board (sample_state (Some (NewPieceGenerator lcg_newSource 42)) 0))
        (CurrentPiece (sample_state (Some (NewPieceGenerator lcg_newSource 42)) 0)) = Some b1 \<and>
      ClearLines b1 = Some (b2, 1) \<and>
      length (filter full_row (Cells b1)) = 1 \<and>
      Score gs' = 50 + 100 * 3 \<and> Lines gs' = 26 \<and> Level gs' = 3 \<and> AttackPower gs' = 0)"
proof -
  let ?gs = "sample_state (Some (NewPieceGenerator lcg_newSource 42)) 0 :: int GameState"
  have ok: "board_ok (Board ?gs)" by (simp add: sample_state_def board_ok_sample_board)
  have r: "\<bar>Score ?gs\<bar> < 2 ^ 62" "\<bar>Lines ?gs\<bar> < 2 ^ 62" "\<bar>Level ?gs\<bar> < 2 ^ 52"
    by (simp_all add: sample_state_def)
  from C3_lock_score_level_attack [OF ok lcg_contract r, of 7] obtain gs' n g' b1 b2 where
    L: "LockPiece lcg_intn 7 ?gs = Some (gs', n, g')"
    and s1: "Board_LockPiece (Board ?gs) (CurrentPiece ?gs) = Some b1"
    and s2: "ClearLines b1 = Some (b2, n)"
    and nf: "n = int (length (filter full_row (Cells b1)))"
    and l: "Lines gs' = Lines ?gs + n" "Level gs' = quo (Lines gs') 10 + 1"
    and c: "n \<in> {1, 2, 3, 4} \<longrightarrow>
        Score gs' = Score ?gs + [100, 300, 500, 800] ! nat (n - 1) * Level ?gs \<and>
        AttackPower gs' = [0, 1, 2, 4] ! nat (n - 1)"
    by blast
  have "map_option (fst \<circ> snd) (LockPiece lcg_intn 7 ?gs) = Some 1" by code_simp
  with L have n: "n = 1" by simp
  from l c have v: "Score gs' = 50 + 100 * 3 \<and> Lines gs' = 26 \<and> Level gs' = 3 \<and> AttackPower gs' = 0"
    unfolding n by (simp add: sample_state_def quo_def)
  from nf n have f: "length (filter full_row (Cells b1)) = 1" by simp
  from L s1 s2 f v ok lcg_contract r show ?thesis unfolding n by blast
qed

lemma garbage_line_nth:
  "x < nat (Width b) \<Longrightarrow> Filled (garbage_line b holeX ! x) \<longleftrightarrow> int x \<noteq> holeX"
  by (simp add: garbage_line_def)

text \<open>
  Claim C5, as the code has it. A lock with \<open>k > 0\<close> queued garbage rows draws one
  column \<open>holeX\<close> from the process-wide source, after the next piece was taken, and
  inserts \<open>k\<close> copies of one row whose only empty cell is at \<open>holeX\<close>: all inserted
  rows share the hole. The rows that were on the board after the line clear move up by
  \<open>k\<close>, the top \<open>k\<close> of them leave the board, and the queue is emptied.
\<close>

theorem C5_garbage_rows_share_one_hole:
  assumes "board_ok (Board gs)" and "Intn_contract intn" and "0 < GarbageQueue gs"
  shows "\<exists>gs' n g' b1 b2 g1 holeX row.
      LockPiece intn g gs = Some (gs', n, g') \<and>
      Board_LockPiece (Board gs) (CurrentPiece gs) = Some b1 \<and>
      ClearLines b1 = Some (b2, n) \<and>
      (PieceGen gs \<noteq> None \<longrightarrow> g1 = g) \<and>
      holeX = fst (intn g1 BoardWidth) \<and> g' = snd (intn g1 BoardWidth) \<and>
      0 \<le> holeX \<and> holeX < 10 \<and>
      length row = 10 \<and> (\<forall>x<10. Filled (row ! x) \<longleftrightarrow> int x \<noteq> holeX) \<and>
      Cells (Board gs') =
        drop (nat (GarbageQueue gs)) (Cells b2) @ replicate (min (nat (GarbageQueue gs)) 20) row \<and>
      GarbageQueue gs' = 0"
proof -
  from LockPiece_ok [OF assms(1,2), of g] obtain b1 b2 n p pg g1 bq q g2 over where
    s1: "Board_LockPiece (Board gs) (CurrentPiece gs) = Some b1"
    and s2: "ClearLines b1 = Some (b2, n)" and ok2: "board_ok b2"
    and g1: "PieceGen gs \<noteq> None \<longrightarrow> g1 = g"
    and a: "applyGarbageQueue intn g1 (gs\<lparr>Board := b2\<rparr>) =
       Some (gs\<lparr>Board := bq, GarbageQueue := q\<rparr>, g2)"
    and L: "LockPiece intn g gs =
       Some (gs\<lparr>Board := bq, Lines := wrap64 (Lines gs + n),
                Score := wrap64 (Score gs + calculateScore gs n),
                Level := wrap64 (quo (wrap64 (Lines gs + n)) 10 + 1),
                AttackPower := (if n > 0 then calculateAttack n else 0),
                CurrentPiece := NextPiece gs, PieceGen := pg, NextPiece := p,
                CanHold := True, GarbageQueue := q,
                IsGameOver := (over \<or> IsGameOver gs)\<rparr>, n, g2)"
    by blast
  let ?h = "fst (intn g1 BoardWidth)"
  let ?row = "garbage_line b2 ?h"
  have o1: "board_ok (Board (gs\<lparr>Board := b2\<rparr>))" using ok2 by simp
  have t1: "0 < GarbageQueue (gs\<lparr>Board := b2\<rparr>)" using assms(3) by simp
  from a [unfolded applyGarbageQueue_ok [OF o1 t1]]
  have bq: "bq = b2\<lparr>Cells := drop (nat (GarbageQueue gs)) (Cells b2) @
               replicate (min (nat (GarbageQueue gs)) 20) ?row\<rparr>"
    and q: "q = 0" and g2: "g2 = snd (intn g1 BoardWidth)"
    by (auto dest: arg_cong [where f = Board] arg_cong [where f = GarbageQueue])
  from assms(2) have h: "0 \<le> ?h" "?h < 10"
    unfolding Intn_contract_def BoardWidth_def by simp_all
  from board_ok_dims [OF ok2] have w: "Width b2 = 10" by simp
  have len: "length ?row = 10" using w by (simp add: length_garbage_line)
  have holes: "\<forall>x<10. Filled (?row ! x) \<longleftrightarrow> int x \<noteq> ?h"
    using w by (simp add: garbage_line_nth)
  have cells: "Cells (Board (gs\<lparr>Board := bq, Lines := wrap64 (Lines gs + n),
                Score := wrap64 (Score gs + calculateScore gs n),
                Level := wrap64 (quo (wrap64 (Lines gs + n)) 10 + 1),
                AttackPower := (if n > 0 then calculateAttack n else 0),
                CurrentPiece := NextPiece gs, PieceGen := pg, NextPiece := p,
                CanHold := True, GarbageQueue := q,
                IsGameOver := (over \<or> IsGameOver gs)\<rparr>)) =
        drop (nat (GarbageQueue gs)) (Cells b2) @ replicate (min (nat (GarbageQueue gs)) 20) ?row"
    by (simp add: bq)
  have queue: "GarbageQueue (gs\<lparr>Board := bq, Lines := wrap64 (Lines gs + n),
                Score := wrap64 (Score gs + calculateScore gs n),
                Level := wrap64 (quo (wrap64 (Lines gs + n)) 10 + 1),
                AttackPower := (if n > 0 then calculateAttack n else 0),
                CurrentPiece := NextPiece gs, PieceGen := pg, NextPiece := p,
                CanHold := True, GarbageQueue := q,
                IsGameOver := (over \<or> IsGameOver gs)\<rparr>) = 0"
    by (simp add: q)
  from L s1 s2 g1 g2 h len holes cells queue show ?thesis by blast
qed

theorem C5_witness:
  "board_ok (Board (sample_state (Some (NewPieceGenerator lcg_newSource 42)) 2)) \<and>
   Intn_contract lcg_intn \<and>
   0 < GarbageQueue (sample_state (Some (NewPieceGenerator lcg_newSource 42)) 2) \<and>
   (\<exists>gs' n g' b1 b2 g1 holeX row.
      LockPiece lcg_intn 7 (sample_state (Some (NewPieceGenerator lcg_newSource 42)) 2)
        = Some (gs', n, g') \<and>
      Board_LockPiece (Board (sample_state (Some (NewPieceGenerator lcg_newSource 42)) 2))
        (CurrentPiece (sample_state (Some (NewPieceGenerator lcg_newSource 42)) 2)) = Some b1 \<and>
      ClearLines b1 = Some (b2, n) \<and>
      (PieceGen (sample_state (Some (NewPieceGenerator lcg_newSource 42)) 2) \<noteq> None \<longrightarrow> g1 = 7) \<and>
      holeX = fst (lcg_intn g1 BoardWidth) \<and> g' = snd (lcg_intn g1 BoardWidth) \<and>
      0 \<le> holeX \<and> holeX < 10 \<and>
      length row = 10 \<and> (\<forall>x<10. Filled (row ! x) \<longleftrightarrow> int x \<noteq> holeX) \<and>
      Cells (Board gs') =
        drop (nat (GarbageQueue (sample_state (Some (NewPieceGenerator lcg_newSource 42)) 2))) (Cells b2) @
        replicate (min (nat (GarbageQueue (sample_state (Some (NewPieceGenerator lcg_newSource 42)) 2))) 20) row \<and>
      GarbageQueue gs' = 0)"
proof -
  let ?gs = "sample_state (Some (NewPieceGenerator lcg_newSource 42)) 2 :: int GameState"
  have ok: "board_ok (Board ?gs)" by (simp add: sample_state_def board_ok_sample_board)
  have q: "0 < GarbageQueue ?gs" by (simp add: sample_state_def)
  from C5_garbage_rows_share_one_hole [OF ok lcg_contract q, of 7] ok lcg_contract q
  show ?thesis by blast
qed

text \<open>
  Claim C5 as written fails. Two rows are queued and the process-wide source will
  return 3 and then 7. The lock draws once: both inserted rows have their hole in
  column 3 and the 7 is still to come, where one draw for each row would have put the
  holes in columns 3 and 7.
\<close>

theorem C5_counterexample:
  "inserted_holes script_intn [3, 7] (sample_state (Some \<lparr>rng = [], bag = [PieceL]\<rparr>) 2)
     = Some ([[3], [3]], [7]) \<and>
   spec_holes_per_row script_intn [3, 7] 2 = [[3], [7]]"
  by code_simp


section \<open>The server: messages, players and rooms\<close>

text \<open>
  The envelopes that the functions below send, each with the fields of its payload:
  \<open>lobby_update\<close> with the \<open>(player_id, name, ready)\<close> of the members,
  \<open>receive_garbage\<close> with \<open>lines\<close> and \<open>attacker_id\<close>, and \<open>match_over\<close> with
  \<open>winner_id\<close>, \<open>winner_name\<close> and \<open>your_rank\<close>.
\<close>

datatype Envelope =
    MsgLobbyUpdate "(string \<times> string \<times> bool) list"
  | MsgReceiveGarbage int string
  | MsgMatchOver string string int

text \<open>
  A \<open>Player\<close> of the server. \<open>sendCh\<close> is the content of the buffered channel, oldest
  message first, and \<open>chClosed\<close> says that the channel was closed. The connection, the
  mutex and the board snapshot play no part below.
\<close>

record Player =
  ID :: string
  Name :: string
  Ready :: bool
  Alive :: bool
  sendCh :: "Envelope list"
  chClosed :: bool
  roomID :: string
  TargetID :: string

text \<open>
  Players are shared by pointer between a room, the hub and the connection's reader. A
  pointer is a \<open>ref\<close>, and the heap gives the player each pointer refers to.
\<close>

type_synonym ref = nat
type_synonym heap = "ref \<Rightarrow> Player"

definition sendChCap :: nat where "sendChCap = 64"
definition minPlayers :: nat where "minPlayers = 2"

text \<open>
  \<open>Player.send\<close> queues the envelope without blocking: on a full channel the
  \<open>default\<close> branch logs and drops it, and the panic of a send on a closed channel is
  recovered, which drops it too. Marshalling these payloads cannot fail.
\<close>

definition send :: "Player \<Rightarrow> Envelope \<Rightarrow> Player" where
  "send p env =
     (if chClosed p then p
      else if length (sendCh p) < sendChCap then p\<lparr>sendCh := sendCh p @ [env]\<rparr>
      else p)"

datatype RoomPhase = PhaseLobby | PhaseCountdown | PhasePlaying | PhaseGameOver

text \<open>
  A \<open>Room\<close>. The map \<open>players\<close> from player id to pointer is an association list in
  the order in which a \<open>range\<close> loop visits it; Go leaves that order open, and every
  statement below holds for every order. Every method of \<open>Room\<close> below holds the
  mutex of the room from its first statement to its last, so a method is one step of the
  room. A case of \<open>handleMessage\<close> is not: it calls several methods in a row and holds
  no lock between them.
\<close>

record Room =
  code :: string
  phase :: RoomPhase
  players :: "(string \<times> ref) list"
  seed :: int
  countdown :: int
  winnerID :: string

definition newRoom :: "string \<Rightarrow> Room" where
  "newRoom c = \<lparr>code = c, phase = PhaseLobby, players = [], seed = 0, countdown = 0, winnerID = ''''\<rparr>"

text \<open>\<open>for _, p := range r.players { p.send(env) }\<close>\<close>

fun send_all :: "(string \<times> ref) list \<Rightarrow> Envelope \<Rightarrow> heap \<Rightarrow> heap" where
  "send_all [] env h = h"
| "send_all ((k, p) # rest) env h = send_all rest env (h(p := send (h p) env))"

definition addPlayer :: "Room \<Rightarrow> heap \<Rightarrow> ref \<Rightarrow> Room \<times> heap" where
  "addPlayer r h p =
     (r\<lparr>players := AList.update (ID (h p)) p (players r)\<rparr>,
      h(p := (h p)\<lparr>roomID := code r\<rparr>))"

definition broadcastLobbyUpdate :: "Room \<Rightarrow> heap \<Rightarrow> heap" where
  "broadcastLobbyUpdate r h =
     send_all (players r)
       (MsgLobbyUpdate (map (\<lambda>(k, p). (ID (h p), Name (h p), Ready (h p))) (players r))) h"

text \<open>\<open>canStart\<close>: at least \<open>minPlayers\<close> members, and no member that is not ready.\<close>

definition canStart :: "Room \<Rightarrow> heap \<Rightarrow> bool" where
  "canStart r h =
     (if length (players r) < minPlayers then False
      else list_all (\<lambda>(k, p). Ready (h p)) (players r))"

text \<open>
  \<open>startCountdown\<close> sets the phase and the counter, then starts a goroutine that
  counts down and starts the game; the goroutine runs later and is not part of this step.
\<close>

definition startCountdown :: "Room \<Rightarrow> Room" where
  "startCountdown r = r\<lparr>phase := PhaseCountdown, countdown := 3\<rparr>"

text \<open>
  \<open>checkWinCondition\<close>. The first loop collects the members that are alive. With at
  most one of them and at least \<open>minPlayers\<close> members the room goes to
  \<open>PhaseGameOver\<close>, the winner is \<open>alive[0]\<close> if there is one, and the second loop
  sends each member its own \<open>match_over\<close>. The goroutine that resets the room two
  seconds later is not part of this step.
\<close>

fun send_ranks :: "(string \<times> ref) list \<Rightarrow> string \<Rightarrow> string \<Rightarrow> int \<Rightarrow> heap \<Rightarrow> heap" where
  "send_ranks [] wid wname totalPlayers h = h"
| "send_ranks ((k, p) # rest) wid wname totalPlayers h =
     send_ranks rest wid wname totalPlayers
       (h(p := send (h p) (MsgMatchOver wid wname (if ID (h p) = wid then 1 else totalPlayers))))"

definition checkWinCondition :: "Room \<Rightarrow> heap \<Rightarrow> Room \<times> heap" where
  "checkWinCondition r h =
     (let alive = map snd (filter (\<lambda>(k, p). Alive (h p)) (players r)) in
      if length alive \<le> 1 \<and> length (players r) \<ge> minPlayers then
        (let r1 = r\<lparr>phase := PhaseGameOver\<rparr>;
             wid = (case alive of [] \<Rightarrow> '''' | w # _ \<Rightarrow> ID (h w));
             wname = (case alive of [] \<Rightarrow> '''' | w # _ \<Rightarrow> Name (h w));
             r2 = (if length alive = 1 then r1\<lparr>winnerID := wid\<rparr> else r1)
         in (r2, send_ranks (players r) wid wname (int (length (players r))) h))
      else (r, h))"

text \<open>
  \<open>removePlayer\<close> takes the player out of the map and clears its \<open>roomID\<close>; during
  play it then checks the win condition.
\<close>

definition removePlayer :: "Room \<Rightarrow> heap \<Rightarrow> string \<Rightarrow> Room \<times> heap" where
  "removePlayer r h pid =
     (let (r1, h1) =
        (case map_of (players r) pid of
           Some p \<Rightarrow> (r\<lparr>players := AList.delete pid (players r)\<rparr>, h(p := (h p)\<lparr>roomID := ''''\<rparr>))
         | None \<Rightarrow> (r, h))
      in if phase r1 = PhasePlaying then checkWinCondition r1 h1 else (r1, h1))"

definition handlePlayerDead :: "Room \<Rightarrow> heap \<Rightarrow> string \<Rightarrow> Room \<times> heap" where
  "handlePlayerDead r h playerID =
     (let h1 = (case map_of (players r) playerID of
                  Some p \<Rightarrow> h(p := (h p)\<lparr>Alive := False\<rparr>)
                | None \<Rightarrow> h)
      in checkWinCondition r h1)"

text \<open>
  What a block inside a function does: it returns from the function, it panics, or it
  goes on with a value.
\<close>

datatype 'a flow = Return | Panic | Continue 'a

text \<open>
  The loop of \<open>handleLinesCleared\<close> that collects the candidates: the ids of the
  members other than the attacker that are alive.
\<close>

definition candidates :: "Room \<Rightarrow> heap \<Rightarrow> string \<Rightarrow> string list" where
  "candidates r h attackerID =
     map fst (filter (\<lambda>(k, p). k \<noteq> attackerID \<and> Alive (h p)) (players r))"

text \<open>
  \<open>handleLinesCleared\<close>, with the \<open>attack_power\<close> of the payload. A report without
  attack power, or from a player that is not in the room, is ignored. The stored target
  is kept when it is a member, alive and not the attacker; otherwise the target is
  \<open>candidates[rand.Intn(len(candidates))]\<close>, and without a candidate the function
  returns. The target found is sent the garbage. The result is the heap and the
  process-wide random source.
\<close>

definition handleLinesCleared ::
  "'g Intn \<Rightarrow> 'g \<Rightarrow> Room \<Rightarrow> heap \<Rightarrow> string \<Rightarrow> int \<Rightarrow> (heap \<times> 'g) option" where
  "handleLinesCleared intn g r h attackerID attackPower =
     (if attackPower \<le> 0 then Some (h, g)
      else case map_of (players r) attackerID of
        None \<Rightarrow> Some (h, g)
      | Some attacker \<Rightarrow>
          (let targetID0 = TargetID (h attacker);
               targetID1 =
                 (if targetID0 \<noteq> '''' then
                    (case map_of (players r) targetID0 of
                       None \<Rightarrow> ''''
                     | Some t \<Rightarrow> if \<not> Alive (h t) \<or> targetID0 = attackerID then '''' else targetID0)
                  else targetID0)
           in case
                (if targetID1 = '''' then
                   (let cs = candidates r h attackerID
                    in if length cs = 0 then Return
                       else case intn g (int (length cs)) of (i, g') \<Rightarrow>
                         (case index cs i of
                            None \<Rightarrow> Panic
                          | Some c \<Rightarrow> Continue (c, g')))
                 else Continue (targetID1, g))
              of
                Return \<Rightarrow> Some (h, g)
              | Panic \<Rightarrow> None
              | Continue (targetID, g') \<Rightarrow>
                  (case map_of (players r) targetID of
                     None \<Rightarrow> Some (h, g')
                   | Some target \<Rightarrow>
                       Some (h(target := send (h target) (MsgReceiveGarbage attackPower attackerID)),
                             g'))))"

section \<open>The server: the hub\<close>

record PendingJoin =
  RoomCode :: string
  PlayerName :: string
  PlayerID :: string
  CreatedAt :: int

text \<open>
  The hub, without its map of connected players, which no function below reads. An
  instant is a number of nanoseconds and \<open>time.Now()\<close> is the parameter \<open>now\<close> of
  the functions that read the clock; \<open>60 * time.Second\<close> is \<open>tokenTTL\<close>. Go's
  \<open>Sub\<close> saturates at the largest and the smallest duration, which leaves the
  comparison with 60 seconds as it is on the integers. \<open>strings.ToUpper\<close> is a
  parameter \<open>toUpper\<close>, and the \<open>%d\<close> of \<open>fmt.Sprintf\<close> is a parameter
  \<open>itoa\<close>.
\<close>

record Hub =
  rooms :: "string \<rightharpoonup> Room"
  pendingJoins :: "string \<rightharpoonup> PendingJoin"
  nextID :: int

definition tokenTTL :: int where "tokenTTL = 60 * 1000000000"

text \<open>
  \<open>generatePlayerID\<close> counts \<open>nextID\<close> up and prints
  \<open>player_%d_%d\<close> with the time in milliseconds and the counter.
\<close>

definition generatePlayerID :: "(int \<Rightarrow> string) \<Rightarrow> int \<Rightarrow> Hub \<Rightarrow> string \<times> Hub" where
  "generatePlayerID itoa nowMilli hub =
     (let hub1 = hub\<lparr>nextID := wrap64 (nextID hub + 1)\<rparr>
      in (''player_'' @ itoa nowMilli @ ''_'' @ itoa (nextID hub1), hub1))"

definition getRoom :: "(string \<Rightarrow> string) \<Rightarrow> Hub \<Rightarrow> string \<Rightarrow> Room option" where
  "getRoom toUpper hub c = rooms hub (toUpper c)"

text \<open>
  \<open>addPendingJoin\<close> deletes every entry that is older than the time to live, then
  stores the new one.
\<close>

definition addPendingJoin :: "int \<Rightarrow> Hub \<Rightarrow> string \<Rightarrow> PendingJoin \<Rightarrow> Hub" where
  "addPendingJoin now hub token pj =
     hub\<lparr>pendingJoins :=
       (\<lambda>t. case pendingJoins hub t of
               None \<Rightarrow> None
             | Some p \<Rightarrow> if now - CreatedAt p > tokenTTL then None else Some p)
       (token \<mapsto> pj)\<rparr>"

text \<open>
  \<open>consumeToken\<close> returns \<open>nil\<close> for a token that is not in the table; otherwise it
  deletes the entry, and returns \<open>nil\<close> if the entry is older than the time to live.
\<close>

definition consumeToken :: "int \<Rightarrow> Hub \<Rightarrow> string \<Rightarrow> PendingJoin option \<times> Hub" where
  "consumeToken now hub token =
     (case pendingJoins hub token of
        None \<Rightarrow> (None, hub)
      | Some pj \<Rightarrow>
          (let hub1 = hub\<lparr>pendingJoins := (pendingJoins hub)(token := None)\<rparr>
           in if now - CreatedAt pj > tokenTTL then (None, hub1) else (Some pj, hub1)))"

text \<open>A run of registrations and consumptions; the result lists what each consumption returned.\<close>

datatype hub_op = OpAddPendingJoin int string PendingJoin | OpConsumeToken int string

fun run_hub_ops :: "hub_op list \<Rightarrow> Hub \<Rightarrow> (string \<times> PendingJoin option) list \<times> Hub" where
  "run_hub_ops [] hub = ([], hub)"
| "run_hub_ops (OpAddPendingJoin now token pj # ops) hub =
     run_hub_ops ops (addPendingJoin now hub token pj)"
| "run_hub_ops (OpConsumeToken now token # ops) hub =
     (case consumeToken now hub token of (res, hub1) \<Rightarrow>
        (case run_hub_ops ops hub1 of (out, hub2) \<Rightarrow> ((token, res) # out, hub2)))"

text \<open>
  Two counts over a run: the consumptions of a token that returned an entry, and the
  registrations of a token.
\<close>

definition successes :: "string \<Rightarrow> (string \<times> PendingJoin option) list \<Rightarrow> nat" where
  "successes token out = length (filter (\<lambda>(t, res). t = token \<and> res \<noteq> None) out)"

definition registrations :: "string \<Rightarrow> hub_op list \<Rightarrow> nat" where
  "registrations token ops =
     length (filter (\<lambda>op. case op of OpAddPendingJoin now t pj \<Rightarrow> t = token | _ \<Rightarrow> False) ops)"

text \<open>
  The \<open>MsgReady\<close> case of \<open>handleMessage\<close> for the connection of the player \<open>p\<close>,
  run from its first statement to its last with no other goroutine in between: without a
  room for \<open>p.roomID\<close> it returns; otherwise it stores the flag, broadcasts the lobby,
  and starts the countdown if \<open>canStart\<close> says so. \<open>canStart\<close> does not look at the
  phase of the room.
\<close>

definition handleMsgReady :: "(string \<Rightarrow> string) \<Rightarrow> Hub \<Rightarrow> heap \<Rightarrow> ref \<Rightarrow> bool \<Rightarrow> Hub \<times> heap" where
  "handleMsgReady toUpper hub h p ready =
     (case getRoom toUpper hub (roomID (h p)) of
        None \<Rightarrow> (hub, h)
      | Some room \<Rightarrow>
          (let h1 = h(p := (h p)\<lparr>Ready := ready\<rparr>);
               h2 = broadcastLobbyUpdate room h1
           in if canStart room h2
              then (hub\<lparr>rooms := (rooms hub)(toUpper (roomID (h p)) \<mapsto> startCountdown room)\<rparr>, h2)
              else (hub, h2)))"

text \<open>
  The same case, statement by statement. The handler runs on the goroutine that reads
  the connection of \<open>p\<close>, one goroutine for each connection. \<open>getRoom\<close> locks the hub,
  \<open>p.Ready = payload.Ready\<close> is a store without a lock, and \<open>broadcastLobbyUpdate\<close>,
  \<open>canStart\<close> and \<open>startCountdown\<close> each lock the room and unlock it before they
  return: the handlers of other connections can run between any two of these five
  statements. A handler under way is a frame: its player, the flag of the payload, the
  statement it is at, the room it holds and what \<open>canStart\<close> returned. The hub keeps the
  rooms under their codes, and the frame holds its room by that code; a room that has
  left the hub meanwhile has no member, so that a broadcast to it sends nothing and its
  \<open>canStart\<close> is false.
\<close>

datatype ready_at = AtGetRoom | AtStore | AtBroadcast | AtCanStart | AtStartCountdown | AtReturn

record ready_frame =
  fr_player :: ref
  fr_ready :: bool
  fr_at :: ready_at
  fr_room :: string
  fr_can :: bool

definition new_frame :: "ref \<Rightarrow> bool \<Rightarrow> ready_frame" where
  "new_frame p ready =
     \<lparr>fr_player = p, fr_ready = ready, fr_at = AtGetRoom, fr_room = '''', fr_can = False\<rparr>"

definition ready_step ::
  "(string \<Rightarrow> string) \<Rightarrow> ready_frame \<Rightarrow> Hub \<Rightarrow> heap \<Rightarrow> ready_frame \<times> Hub \<times> heap" where
  "ready_step toUpper f hub h =
     (case fr_at f of
        AtGetRoom \<Rightarrow>
          (case getRoom toUpper hub (roomID (h (fr_player f))) of
             None \<Rightarrow> (f\<lparr>fr_at := AtReturn\<rparr>, hub, h)
           | Some room \<Rightarrow>
               (f\<lparr>fr_at := AtStore, fr_room := toUpper (roomID (h (fr_player f)))\<rparr>, hub, h))
      | AtStore \<Rightarrow>
          (f\<lparr>fr_at := AtBroadcast\<rparr>, hub,
           h(fr_player f := (h (fr_player f))\<lparr>Ready := fr_ready f\<rparr>))
      | AtBroadcast \<Rightarrow>
          (f\<lparr>fr_at := AtCanStart\<rparr>, hub,
           (case rooms hub (fr_room f) of
              None \<Rightarrow> h
            | Some room \<Rightarrow> broadcastLobbyUpdate room h))
      | AtCanStart \<Rightarrow>
          (let c = (case rooms hub (fr_room f) of
                      None \<Rightarrow> False
                    | Some room \<Rightarrow> canStart room h)
           in (f\<lparr>fr_at := (if c then AtStartCountdown else AtReturn), fr_can := c\<rparr>, hub, h))
      | AtStartCountdown \<Rightarrow>
          (f\<lparr>fr_at := AtReturn\<rparr>,
           (case rooms hub (fr_room f) of
              None \<Rightarrow> hub
            | Some room \<Rightarrow> hub\<lparr>rooms := (rooms hub)(fr_room f \<mapsto> startCountdown room)\<rparr>),
           h)
      | AtReturn \<Rightarrow> (f, hub, h))"

text \<open>
  A run of several handlers: the schedule names, step by step, the frame that executes
  its next statement.
\<close>

fun run_ready ::
  "(string \<Rightarrow> string) \<Rightarrow> nat list \<Rightarrow> ready_frame list \<Rightarrow> Hub \<Rightarrow> heap \<Rightarrow>
     ready_frame list \<times> Hub \<times> heap" where
  "run_ready toUpper [] fs hub h = (fs, hub, h)"
| "run_ready toUpper (i # sched) fs hub h =
     (if i < length fs then
        (case ready_step toUpper (fs ! i) hub h of
           (f, hub1, h1) \<Rightarrow> run_ready toUpper sched (fs[i := f]) hub1 h1)
      else run_ready toUpper sched fs hub h)"

text \<open>
  What a member's leaving runs. \<open>resetToLobby\<close> puts the room back to the lobby and
  every member to not ready and alive; \<open>removeRoomIfEmpty\<close> looks the room up under the
  code as given and deletes it when it has no member.
\<close>

definition playerCount :: "Room \<Rightarrow> int" where
  "playerCount r = int (length (players r))"

fun reset_players :: "(string \<times> ref) list \<Rightarrow> heap \<Rightarrow> heap" where
  "reset_players [] h = h"
| "reset_players ((k, p) # rest) h =
     reset_players rest (h(p := (h p)\<lparr>Ready := False, Alive := True\<rparr>))"

definition resetToLobby :: "Room \<Rightarrow> heap \<Rightarrow> Room \<times> heap" where
  "resetToLobby r h = (r\<lparr>phase := PhaseLobby\<rparr>, reset_players (players r) h)"

definition removeRoomIfEmpty :: "Hub \<Rightarrow> string \<Rightarrow> Hub" where
  "removeRoomIfEmpty hub c =
     (case rooms hub c of
        None \<Rightarrow> hub
      | Some room \<Rightarrow>
          if playerCount room = 0 then hub\<lparr>rooms := (rooms hub)(c := None)\<rparr> else hub)"

text \<open>
  The \<open>MsgLeaveRoom\<close> case of \<open>handleMessage\<close>, run with no other goroutine in
  between: the player is removed from its room; an empty room is reset and deleted, and
  the members of any other room are sent the lobby. Neither \<open>canStart\<close> nor
  \<open>startCountdown\<close> is called. The clean-up at the end of \<open>handlePlay\<close>, when a
  connection is lost, makes the same calls on the room, and closes the channel of the
  player.
\<close>

definition handleMsgLeaveRoom :: "(string \<Rightarrow> string) \<Rightarrow> Hub \<Rightarrow> heap \<Rightarrow> ref \<Rightarrow> Hub \<times> heap" where
  "handleMsgLeaveRoom toUpper hub h p =
     (if roomID (h p) \<noteq> '''' then
        (let c = roomID (h p) in
         case getRoom toUpper hub c of
           None \<Rightarrow> (hub, h)
         | Some room \<Rightarrow>
             (case removePlayer room h (ID (h p)) of (room1, h1) \<Rightarrow>
                if playerCount room1 = 0 then
                  (case resetToLobby room1 h1 of (room2, h2) \<Rightarrow>
                     (removeRoomIfEmpty (hub\<lparr>rooms := (rooms hub)(toUpper c \<mapsto> room2)\<rparr>) c, h2))
                else
                  (hub\<lparr>rooms := (rooms hub)(toUpper c \<mapsto> room1)\<rparr>,
                   broadcastLobbyUpdate room1 h1)))
      else (hub, h))"

text \<open>
  A room as the server keeps it: the keys of the map are distinct, no player object is
  stored under two keys, every player is stored under its own id (\<open>addPlayer\<close> stores
  \<open>p\<close> under \<open>p.ID\<close>), and no id is empty (every id comes from
  \<open>generatePlayerID\<close>).
\<close>

definition room_ok :: "Room \<Rightarrow> heap \<Rightarrow> bool" where
  "room_ok r h \<longleftrightarrow>
     distinct (map fst (players r)) \<and> distinct (map snd (players r)) \<and>
     (\<forall>(k, p) \<in> set (players r). ID (h p) = k \<and> k \<noteq> '''')"

section \<open>A sample room\<close>

text \<open>
  Three players, ann, bob and cat, at the pointers 0, 1 and 2, in the room \<open>ABCDE\<close>.
  \<open>mkPlayer\<close> gives a player with an open channel; \<open>heap_of\<close> puts a list of
  players at the pointers 0, 1, 2 and so on.
\<close>

definition mkPlayer :: "string \<Rightarrow> string \<Rightarrow> bool \<Rightarrow> bool \<Rightarrow> string \<Rightarrow> Envelope list \<Rightarrow> Player" where
  "mkPlayer pid nm rdy alv tgt queue =
     \<lparr>ID = pid, Name = nm, Ready = rdy, Alive = alv, sendCh = queue, chClosed = False,
      roomID = ''ABCDE'', TargetID = tgt\<rparr>"

definition heap_of :: "Player list \<Rightarrow> heap" where
  "heap_of ps p = (if p < length ps then ps ! p else mkPlayer '''' '''' False False '''' [])"

definition sample_room :: "RoomPhase \<Rightarrow> Room" where
  "sample_room ph =
     \<lparr>code = ''ABCDE'', phase = ph,
      players = [(''player_1_1'', 0), (''player_2_2'', 1), (''player_3_3'', 2)],
      seed = 0, countdown = 0, winnerID = ''''\<rparr>"

definition full_queue :: "Envelope list" where
  "full_queue = replicate 64 (MsgLobbyUpdate [])"

text \<open>The players by readiness, by life, by target and by queue.\<close>

definition ann :: "bool \<Rightarrow> bool \<Rightarrow> string \<Rightarrow> Envelope list \<Rightarrow> Player" where
  "ann rdy alv tgt queue = mkPlayer ''player_1_1'' ''ann'' rdy alv tgt queue"

definition bob :: "bool \<Rightarrow> bool \<Rightarrow> string \<Rightarrow> Envelope list \<Rightarrow> Player" where
  "bob rdy alv tgt queue = mkPlayer ''player_2_2'' ''bob'' rdy alv tgt queue"

definition cat :: "bool \<Rightarrow> bool \<Rightarrow> string \<Rightarrow> Envelope list \<Rightarrow> Player" where
  "cat rdy alv tgt queue = mkPlayer ''player_3_3'' ''cat'' rdy alv tgt queue"

definition sample_hub :: "RoomPhase \<Rightarrow> Hub" where
  "sample_hub ph =
     \<lparr>rooms = [''ABCDE'' \<mapsto> sample_room ph],
      pendingJoins =
        [''tok_1'' \<mapsto> \<lparr>RoomCode = ''ABCDE'', PlayerName = ''ann'', PlayerID = ''player_1_1'',
                        CreatedAt = 0\<rparr>,
         ''tok_2'' \<mapsto> \<lparr>RoomCode = ''ABCDE'', PlayerName = ''bob'', PlayerID = ''player_2_2'',
                        CreatedAt = 50000000000\<rparr>],
      nextID = 4\<rparr>"

text \<open>A room of ann and bob alone, the two of them playing.\<close>

definition duo_room :: Room where
  "duo_room =
     \<lparr>code = ''ABCDE'', phase = PhasePlaying,
      players = [(''player_1_1'', 0), (''player_2_2'', 1)],
      seed = 0, countdown = 0, winnerID = ''''\<rparr>"

section \<open>The server: tokens, the lobby, the end of a match and attacks\<close>

subsection \<open>Join tokens\<close>

lemma consumeToken_unknown:
  "pendingJoins hub token = None \<Longrightarrow> consumeToken now hub token = (None, hub)"
  by (simp add: consumeToken_def)

lemma consumeToken_removes:
  "pendingJoins (snd (consumeToken now hub token)) token = None"
  by (simp add: consumeToken_def Let_def split: option.splits)

lemma consumeToken_others:
  "t \<noteq> token \<Longrightarrow> pendingJoins (snd (consumeToken now hub token)) t = pendingJoins hub t"
  by (simp add: consumeToken_def Let_def split: option.splits)

lemma consumeToken_expired:
  "pendingJoins hub token = Some pj \<Longrightarrow> now - CreatedAt pj > tokenTTL \<Longrightarrow>
     fst (consumeToken now hub token) = None"
  by (simp add: consumeToken_def Let_def)

lemma consumeToken_fresh:
  "pendingJoins hub token = Some pj \<Longrightarrow> \<not> now - CreatedAt pj > tokenTTL \<Longrightarrow>
     fst (consumeToken now hub token) = Some pj"
  by (simp add: consumeToken_def Let_def)

lemma addPendingJoin_token:
  "pendingJoins (addPendingJoin now hub token pj) token = Some pj"
  by (simp add: addPendingJoin_def)

lemma addPendingJoin_others:
  "t \<noteq> token \<Longrightarrow>
     pendingJoins (addPendingJoin now hub token pj) t =
       (case pendingJoins hub t of
          None \<Rightarrow> None
        | Some p \<Rightarrow> if now - CreatedAt p > tokenTTL then None else Some p)"
  by (simp add: addPendingJoin_def)

lemma successes_bound:
  "successes token (fst (run_hub_ops ops hub)) \<le>
     registrations token ops + (if pendingJoins hub token = None then 0 else 1)"
proof (induction ops arbitrary: hub)
  case Nil
  show ?case by (simp add: successes_def)
next
  case (Cons op ops)
  show ?case
  proof (cases op)
    case (OpAddPendingJoin now t pj)
    have "successes token (fst (run_hub_ops ops (addPendingJoin now hub t pj))) \<le>
        registrations token ops +
        (if pendingJoins (addPendingJoin now hub t pj) token = None then 0 else 1)"
      by (rule Cons.IH)
    also have "\<dots> \<le> registrations token (op # ops) + (if pendingJoins hub token = None then 0 else 1)"
    proof (cases "t = token")
      case True
      then show ?thesis using OpAddPendingJoin by (simp add: registrations_def)
    next
      case False
      then have "pendingJoins hub token = None \<Longrightarrow>
          pendingJoins (addPendingJoin now hub t pj) token = None"
        by (simp add: addPendingJoin_others)
      then show ?thesis using OpAddPendingJoin by (auto simp: registrations_def)
    qed
    finally show ?thesis using OpAddPendingJoin by simp
  next
    case (OpConsumeToken now t)
    obtain res hub1 where c: "consumeToken now hub t = (res, hub1)" by (cases "consumeToken now hub t")
    obtain out hub2 where r: "run_hub_ops ops hub1 = (out, hub2)" by (cases "run_hub_ops ops hub1")
    have ih: "successes token out \<le>
        registrations token ops + (if pendingJoins hub1 token = None then 0 else 1)"
      using Cons.IH [of hub1] r by simp
    have reg: "registrations token (op # ops) = registrations token ops"
      using OpConsumeToken by (simp add: registrations_def)
    have out: "fst (run_hub_ops (op # ops) hub) = (t, res) # out"
      using OpConsumeToken c r by simp
    show ?thesis
    proof (cases "t = token")
      case True
      have gone: "pendingJoins hub1 token = None"
        using consumeToken_removes [of now hub t] c True by simp
      have "res \<noteq> None \<Longrightarrow> pendingJoins hub token \<noteq> None"
        using consumeToken_unknown [of hub t now] c True by auto
      then show ?thesis using ih gone True
        unfolding out reg by (auto simp: successes_def)
    next
      case False
      have "pendingJoins hub1 token = pendingJoins hub token"
        using consumeToken_others [of token t now hub] c False by simp
      then show ?thesis using ih False
        unfolding out reg by (auto simp: successes_def)
    qed
  qed
qed

text \<open>
  Claim C7. Consuming a token fails for a token that is not in the table, for a token
  that was consumed before (whatever the outcome of that consumption), and for a token
  registered more than 60 seconds ago; in every run, a token is consumed with success at
  most once for each registration of it. A registration stores the new entry and deletes
  every other entry that is older than 60 seconds, keeping the rest.
\<close>

theorem C7_join_token_single_use_and_sweep:
  "(pendingJoins hub token = None \<longrightarrow> fst (consumeToken now hub token) = None) \<and>
   fst (consumeToken now' (snd (consumeToken now hub token)) token) = None \<and>
   (\<forall>pj. pendingJoins hub token = Some pj \<and> now - CreatedAt pj > 60 * 1000000000 \<longrightarrow>
      fst (consumeToken now hub token) = None) \<and>
   (pendingJoins hub token = None \<and> registrations token ops \<le> 1 \<longrightarrow>
      successes token (fst (run_hub_ops ops hub)) \<le> 1) \<and>
   pendingJoins (addPendingJoin now hub token new) token = Some new \<and>
   (\<forall>t old. t \<noteq> token \<and> pendingJoins hub t = Some old \<longrightarrow>
      pendingJoins (addPendingJoin now hub token new) t =
        (if now - CreatedAt old > 60 * 1000000000 then None else Some old)) \<and>
   (\<forall>t. t \<noteq> token \<and> pendingJoins hub t = None \<longrightarrow>
      pendingJoins (addPendingJoin now hub token new) t = None)"
proof -
  have a: "pendingJoins hub token = None \<longrightarrow> fst (consumeToken now hub token) = None"
    by (simp add: consumeToken_unknown)
  have b: "fst (consumeToken now' (snd (consumeToken now hub token)) token) = None"
    by (simp add: consumeToken_unknown consumeToken_removes)
  have c: "\<forall>pj. pendingJoins hub token = Some pj \<and> now - CreatedAt pj > 60 * 1000000000 \<longrightarrow>
      fst (consumeToken now hub token) = None"
    using consumeToken_expired [of hub token _ now] by (simp add: tokenTTL_def)
  have d: "pendingJoins hub token = None \<and> registrations token ops \<le> 1 \<longrightarrow>
      successes token (fst (run_hub_ops ops hub)) \<le> 1"
    using successes_bound [of token ops hub] by auto
  have e: "pendingJoins (addPendingJoin now hub token new) token = Some new"
    by (rule addPendingJoin_token)
  have f: "\<forall>t old. t \<noteq> token \<and> pendingJoins hub t = Some old \<longrightarrow>
      pendingJoins (addPendingJoin now hub token new) t =
        (if now - CreatedAt old > 60 * 1000000000 then None else Some old)"
    by (simp add: addPendingJoin_others tokenTTL_def)
  have g: "\<forall>t. t \<noteq> token \<and> pendingJoins hub t = None \<longrightarrow>
      pendingJoins (addPendingJoin now hub token new) t = None"
    by (simp add: addPendingJoin_others)
  from a b c d e f g show ?thesis by blast
qed

subsection \<open>Sending\<close>

lemma send_fields [simp]:
  "ID (send p env) = ID p" "Name (send p env) = Name p" "Ready (send p env) = Ready p"
  "Alive (send p env) = Alive p" "TargetID (send p env) = TargetID p"
  "roomID (send p env) = roomID p" "chClosed (send p env) = chClosed p"
  by (simp_all add: send_def)

lemma send_queued:
  "\<not> chClosed p \<Longrightarrow> length (sendCh p) < 64 \<Longrightarrow> sendCh (send p env) = sendCh p @ [env]"
  by (simp add: send_def sendChCap_def)

lemma send_dropped:
  "chClosed p \<or> length (sendCh p) \<ge> 64 \<Longrightarrow> send p env = p"
  by (auto simp: send_def sendChCap_def)

lemma send_all_Ready [simp]: "Ready (send_all ps env h q) = Ready (h q)"
proof (induction ps arbitrary: h)
  case Nil
  show ?case by simp
next
  case (Cons a ps)
  obtain k p where a: "a = (k, p)" by (cases a)
  have "Ready (send_all ps env (h(p := send (h p) env)) q) = Ready ((h(p := send (h p) env)) q)"
    by (rule Cons.IH)
  then show ?case by (simp add: a)
qed

lemma broadcastLobbyUpdate_Ready [simp]: "Ready (broadcastLobbyUpdate r h q) = Ready (h q)"
  by (simp add: broadcastLobbyUpdate_def)

subsection \<open>From the lobby to the countdown\<close>

lemma canStart_iff:
  "canStart r h \<longleftrightarrow> length (players r) \<ge> 2 \<and> (\<forall>(k, q) \<in> set (players r). Ready (h q))"
  by (auto simp: canStart_def minPlayers_def list_all_iff)

text \<open>
  The ready message handled alone. When the handler of a member's ready message runs
  from its first statement to its last with no other goroutine in between, on a room in
  the lobby, the room goes to the countdown if and only if it has at least 2 members and
  every member is ready, with the flag just received counted; otherwise it stays in the
  lobby. The message changes the sender's flag and no other, and a message that sets the
  flag of a member to false does not start the countdown.
\<close>

lemma handleMsgReady_alone:
  assumes "getRoom toUpper hub (roomID (h p)) = Some room" and "phase room = PhaseLobby"
  shows "\<exists>hub' h' room'.
     handleMsgReady toUpper hub h p ready = (hub', h') \<and>
     getRoom toUpper hub' (roomID (h p)) = Some room' \<and>
     players room' = players room \<and>
     (\<forall>q. Ready (h' q) = (if q = p then ready else Ready (h q))) \<and>
     (phase room' = PhaseCountdown \<longleftrightarrow>
        length (players room) \<ge> 2 \<and> (\<forall>(k, q) \<in> set (players room). Ready (h' q))) \<and>
     (phase room' = PhaseCountdown \<or> phase room' = PhaseLobby) \<and>
     (p \<in> snd ` set (players room) \<and> \<not> ready \<longrightarrow> phase room' = PhaseLobby)"
proof -
  let ?h1 = "h(p := (h p)\<lparr>Ready := ready\<rparr>)"
  let ?h2 = "broadcastLobbyUpdate room ?h1"
  have rd: "\<forall>q. Ready (?h2 q) = (if q = p then ready else Ready (h q))" by simp
  show ?thesis
  proof (cases "canStart room ?h2")
    case True
    let ?hub = "hub\<lparr>rooms := (rooms hub)(toUpper (roomID (h p)) \<mapsto> startCountdown room)\<rparr>"
    have r: "handleMsgReady toUpper hub h p ready = (?hub, ?h2)"
      using assms(1) True by (simp add: handleMsgReady_def Let_def)
    have g: "getRoom toUpper ?hub (roomID (h p)) = Some (startCountdown room)"
      by (simp add: getRoom_def)
    have all: "length (players room) \<ge> 2 \<and> (\<forall>(k, q) \<in> set (players room). Ready (?h2 q))"
      using True canStart_iff [of room ?h2] by blast
    have np: "p \<in> snd ` set (players room) \<and> \<not> ready \<longrightarrow> phase (startCountdown room) = PhaseLobby"
    proof (intro impI, elim conjE)
      assume "p \<in> snd ` set (players room)" and "\<not> ready"
      then obtain k where "(k, p) \<in> set (players room)" by auto
      with all have "Ready (?h2 p)" by blast
      with \<open>\<not> ready\<close> show "phase (startCountdown room) = PhaseLobby" by simp
    qed
    have "phase (startCountdown room) = PhaseCountdown" "players (startCountdown room) = players room"
      by (simp_all add: startCountdown_def)
    with r g rd all np show ?thesis by blast
  next
    case False
    have r: "handleMsgReady toUpper hub h p ready = (hub, ?h2)"
      using assms(1) False by (simp add: handleMsgReady_def Let_def)
    have nall: "\<not> (length (players room) \<ge> 2 \<and> (\<forall>(k, q) \<in> set (players room). Ready (?h2 q)))"
      using False canStart_iff [of room ?h2] by blast
    from assms(2) have "phase room \<noteq> PhaseCountdown" by simp
    with r assms rd nall show ?thesis by blast
  qed
qed

subsection \<open>The end of a match\<close>

lemma send_ranks_other:
  "x \<notin> snd ` set ps \<Longrightarrow> send_ranks ps wid wname n h x = h x"
proof (induction ps arbitrary: h)
  case Nil
  show ?case by simp
next
  case (Cons a ps)
  obtain k p where a: "a = (k, p)" by (cases a)
  define h1 where "h1 = h(p := send (h p) (MsgMatchOver wid wname (if ID (h p) = wid then 1 else n)))"
  from Cons.prems a have x: "x \<noteq> p" "x \<notin> snd ` set ps" by auto
  have "send_ranks (a # ps) wid wname n h x = send_ranks ps wid wname n h1 x"
    by (simp only: a h1_def send_ranks.simps)
  also have "\<dots> = h1 x" by (rule Cons.IH [OF x(2)])
  also have "\<dots> = h x" using x(1) by (simp add: h1_def)
  finally show ?case .
qed

lemma send_ranks_member:
  "distinct (map snd ps) \<Longrightarrow> (k, p) \<in> set ps \<Longrightarrow>
     send_ranks ps wid wname n h p =
       send (h p) (MsgMatchOver wid wname (if ID (h p) = wid then 1 else n))"
proof (induction ps arbitrary: h)
  case Nil
  then show ?case by simp
next
  case (Cons a ps)
  obtain k' p' where a: "a = (k', p')" by (cases a)
  define h1 where "h1 = h(p' := send (h p') (MsgMatchOver wid wname (if ID (h p') = wid then 1 else n)))"
  from Cons.prems(1) a have d: "distinct (map snd ps)" and np: "p' \<notin> snd ` set ps" by auto
  have step: "send_ranks (a # ps) wid wname n h p = send_ranks ps wid wname n h1 p"
    by (simp only: a h1_def send_ranks.simps)
  show ?case
  proof (cases "p = p'")
    case True
    with np have "send_ranks ps wid wname n h1 p = h1 p" by (simp add: send_ranks_other)
    also have "\<dots> = send (h p) (MsgMatchOver wid wname (if ID (h p) = wid then 1 else n))"
      using True by (simp add: h1_def)
    finally show ?thesis using step by simp
  next
    case False
    with Cons.prems(2) a have "(k, p) \<in> set ps" by auto
    from Cons.IH [OF d this, of h1]
    have "send_ranks ps wid wname n h1 p =
        send (h1 p) (MsgMatchOver wid wname (if ID (h1 p) = wid then 1 else n))" .
    moreover have "h1 p = h p" using False by (simp add: h1_def)
    ultimately show ?thesis using step by simp
  qed
qed

lemma generatePlayerID_nonempty: "fst (generatePlayerID itoa nowMilli hub) \<noteq> ''''"
  by (simp add: generatePlayerID_def Let_def)

lemma room_ok_ids:
  assumes "room_ok r h" and "(k, p) \<in> set (players r)"
  shows "ID (h p) = k" and "k \<noteq> ''''"
  using assms by (auto simp: room_ok_def)



lemma checkWinCondition_none_alive:
  assumes n: "length (players r) \<ge> 2"
    and none: "filter (\<lambda>(k, p). Alive (h p)) (players r) = []"
  shows "checkWinCondition r h =
     (r\<lparr>phase := PhaseGameOver\<rparr>,
      send_ranks (players r) '''' '''' (int (length (players r))) h)"
  using n none by (simp add: checkWinCondition_def Let_def minPlayers_def)

text \<open>
  The two callers of the check and the state on which it runs: after a death report the
  room with all its members, the reporter marked dead; after a removal during play the
  room without the player removed.
\<close>

lemma handlePlayerDead_check:
  "map_of (players r) playerID = Some p \<Longrightarrow>
     handlePlayerDead r h playerID = checkWinCondition r (h(p := (h p)\<lparr>Alive := False\<rparr>))"
  by (simp add: handlePlayerDead_def)

lemma removePlayer_check:
  "map_of (players r) pid = Some p \<Longrightarrow> phase r = PhasePlaying \<Longrightarrow>
     removePlayer r h pid =
       checkWinCondition (r\<lparr>players := AList.delete pid (players r)\<rparr>)
         (h(p := (h p)\<lparr>roomID := ''''\<rparr>))"
  by (simp add: removePlayer_def)


text \<open>
  Claim C10, as the code has it. In a room with at least 2 members none of which is
  alive, the win-condition check ends the match without a winner and sends every member
  one \<open>match_over\<close> with an empty winner id, an empty winner name and the number of
  members as rank; no member is sent rank 1. The message reaches the member's queue when
  the queue is open and holds fewer than 64 messages; otherwise \<open>send\<close> drops it.
\<close>

theorem C10_match_over_without_winner:
  assumes "room_ok r h" and "length (players r) \<ge> 2"
    and "filter (\<lambda>(k, p). Alive (h p)) (players r) = []"
  shows "\<exists>r' h'. checkWinCondition r h = (r', h') \<and>
     phase r' = PhaseGameOver \<and> winnerID r' = winnerID r \<and>
     (\<forall>(k, p) \<in> set (players r).
        h' p = send (h p) (MsgMatchOver '''' '''' (int (length (players r)))) \<and>
        (\<not> chClosed (h p) \<and> length (sendCh (h p)) < 64 \<longrightarrow>
           sendCh (h' p) = sendCh (h p) @ [MsgMatchOver '''' '''' (int (length (players r)))]) \<and>
        (chClosed (h p) \<or> length (sendCh (h p)) \<ge> 64 \<longrightarrow> h' p = h p))"
proof -
  let ?n = "int (length (players r))"
  let ?h = "send_ranks (players r) '''' '''' ?n h"
  have c: "checkWinCondition r h = (r\<lparr>phase := PhaseGameOver\<rparr>, ?h)"
    by (rule checkWinCondition_none_alive [OF assms(2,3)])
  from assms(1) have d: "distinct (map snd (players r))" by (simp add: room_ok_def)
  have m: "?h p = send (h p) (MsgMatchOver '''' '''' ?n)"
    if "(k, p) \<in> set (players r)" for k p
  proof -
    from room_ok_ids [OF assms(1) that] have "ID (h p) \<noteq> ''''" by simp
    with send_ranks_member [OF d that, of "''''" "''''" ?n h] show ?thesis by simp
  qed
  have e: "?h p = send (h p) (MsgMatchOver '''' '''' ?n) \<and>
        (\<not> chClosed (h p) \<and> length (sendCh (h p)) < 64 \<longrightarrow>
           sendCh (?h p) = sendCh (h p) @ [MsgMatchOver '''' '''' ?n]) \<and>
        (chClosed (h p) \<or> length (sendCh (h p)) \<ge> 64 \<longrightarrow> ?h p = h p)"
    if "(k, p) \<in> set (players r)" for k p
    unfolding m [OF that] using send_queued send_dropped by blast
  have all: "\<forall>(k, p) \<in> set (players r).
        ?h p = send (h p) (MsgMatchOver '''' '''' ?n) \<and>
        (\<not> chClosed (h p) \<and> length (sendCh (h p)) < 64 \<longrightarrow>
           sendCh (?h p) = sendCh (h p) @ [MsgMatchOver '''' '''' ?n]) \<and>
        (chClosed (h p) \<or> length (sendCh (h p)) \<ge> 64 \<longrightarrow> ?h p = h p)"
  proof (intro ballI)
    fix x assume x: "x \<in> set (players r)"
    obtain k p where kp: "x = (k, p)" by (cases x)
    from e [of k p] x kp show "case x of (k, p) \<Rightarrow>
        ?h p = send (h p) (MsgMatchOver '''' '''' ?n) \<and>
        (\<not> chClosed (h p) \<and> length (sendCh (h p)) < 64 \<longrightarrow>
           sendCh (?h p) = sendCh (h p) @ [MsgMatchOver '''' '''' ?n]) \<and>
        (chClosed (h p) \<or> length (sendCh (h p)) \<ge> 64 \<longrightarrow> ?h p = h p)"
      unfolding kp prod.case by blast
  qed
  have p1: "phase (r\<lparr>phase := PhaseGameOver\<rparr>) = PhaseGameOver"
    and p2: "winnerID (r\<lparr>phase := PhaseGameOver\<rparr>) = winnerID r"
    by simp_all
  from c p1 p2 all show ?thesis by blast
qed

subsection \<open>The claims on the sample room\<close>

lemma room_ok_sample:
  "ID (ps ! 0) = ''player_1_1'' \<Longrightarrow> ID (ps ! 1) = ''player_2_2'' \<Longrightarrow> ID (ps ! 2) = ''player_3_3'' \<Longrightarrow>
   length ps = 3 \<Longrightarrow> room_ok (sample_room ph) (heap_of ps)"
  by (simp add: room_ok_def sample_room_def heap_of_def)

lemma players_sample_room:
  "players (sample_room ph) = [(''player_1_1'', 0), (''player_2_2'', 1), (''player_3_3'', 2)]"
  by (simp add: sample_room_def)

lemmas sample_defs = heap_of_def ann_def bob_def cat_def mkPlayer_def

theorem C7_witness:
  "pendingJoins (sample_hub PhaseLobby) ''tok_9'' = None \<and>
   fst (consumeToken 70000000000 (sample_hub PhaseLobby) ''tok_9'') = None \<and>
   fst (consumeToken 70000000001
          (snd (consumeToken 70000000000 (sample_hub PhaseLobby) ''tok_2'')) ''tok_2'') = None \<and>
   pendingJoins (sample_hub PhaseLobby) ''tok_1'' =
     Some \<lparr>RoomCode = ''ABCDE'', PlayerName = ''ann'', PlayerID = ''player_1_1'', CreatedAt = 0\<rparr> \<and>
   70000000000 - CreatedAt \<lparr>RoomCode = ''ABCDE'', PlayerName = ''ann'', PlayerID = ''player_1_1'',
       CreatedAt = 0\<rparr> > 60 * 1000000000 \<and>
   fst (consumeToken 70000000000 (sample_hub PhaseLobby) ''tok_1'') = None \<and>
   registrations ''tok_9''
     [OpAddPendingJoin 1 ''tok_9'' \<lparr>RoomCode = ''ABCDE'', PlayerName = ''cat'',
        PlayerID = ''player_3_3'', CreatedAt = 1\<rparr>,
      OpConsumeToken 2 ''tok_9'', OpConsumeToken 3 ''tok_9''] \<le> 1 \<and>
   successes ''tok_9''
     (fst (run_hub_ops
        [OpAddPendingJoin 1 ''tok_9'' \<lparr>RoomCode = ''ABCDE'', PlayerName = ''cat'',
           PlayerID = ''player_3_3'', CreatedAt = 1\<rparr>,
         OpConsumeToken 2 ''tok_9'', OpConsumeToken 3 ''tok_9'']
        (sample_hub PhaseLobby))) \<le> 1 \<and>
   pendingJoins (addPendingJoin 70000000000 (sample_hub PhaseLobby) ''tok_9''
      \<lparr>RoomCode = ''ABCDE'', PlayerName = ''cat'', PlayerID = ''player_3_3'',
        CreatedAt = 70000000000\<rparr>) ''tok_1'' = None \<and>
   pendingJoins (addPendingJoin 70000000000 (sample_hub PhaseLobby) ''tok_9''
      \<lparr>RoomCode = ''ABCDE'', PlayerName = ''cat'', PlayerID = ''player_3_3'',
        CreatedAt = 70000000000\<rparr>) ''tok_2'' =
     Some \<lparr>RoomCode = ''ABCDE'', PlayerName = ''bob'', PlayerID = ''player_2_2'',
        CreatedAt = 50000000000\<rparr>"
proof -
  let ?hub = "sample_hub PhaseLobby"
  let ?old = "\<lparr>RoomCode = ''ABCDE'', PlayerName = ''ann'', PlayerID = ''player_1_1'', CreatedAt = 0\<rparr>"
  let ?mid = "\<lparr>RoomCode = ''ABCDE'', PlayerName = ''bob'', PlayerID = ''player_2_2'',
        CreatedAt = 50000000000\<rparr>"
  let ?new = "\<lparr>RoomCode = ''ABCDE'', PlayerName = ''cat'', PlayerID = ''player_3_3'',
        CreatedAt = 70000000000\<rparr>"
  let ?ops = "[OpAddPendingJoin 1 ''tok_9'' \<lparr>RoomCode = ''ABCDE'', PlayerName = ''cat'',
        PlayerID = ''player_3_3'', CreatedAt = 1\<rparr>,
      OpConsumeToken 2 ''tok_9'', OpConsumeToken 3 ''tok_9'']"
  have none: "pendingJoins ?hub ''tok_9'' = None" by (simp add: sample_hub_def)
  have old: "pendingJoins ?hub ''tok_1'' = Some ?old" by (simp add: sample_hub_def)
  have mid: "pendingJoins ?hub ''tok_2'' = Some ?mid" by (simp add: sample_hub_def)
  have exp: "70000000000 - CreatedAt ?old > 60 * 1000000000" by simp
  have reg: "registrations ''tok_9'' ?ops \<le> 1" by (simp add: registrations_def)
  note t9 = C7_join_token_single_use_and_sweep
    [of ?hub "''tok_9''" 70000000000 70000000001 ?ops ?new]
  note t1 = C7_join_token_single_use_and_sweep
    [of ?hub "''tok_1''" 70000000000 70000000001 "[]" ?new]
  note t2 = C7_join_token_single_use_and_sweep
    [of ?hub "''tok_2''" 70000000000 70000000001 "[]" ?new]
  from t9 none have a: "fst (consumeToken 70000000000 ?hub ''tok_9'') = None" by blast
  from t2 have b: "fst (consumeToken 70000000001
          (snd (consumeToken 70000000000 ?hub ''tok_2'')) ''tok_2'') = None" by blast
  from t1 old exp have c: "fst (consumeToken 70000000000 ?hub ''tok_1'') = None" by blast
  from t9 none reg have d: "successes ''tok_9'' (fst (run_hub_ops ?ops ?hub)) \<le> 1" by blast
  from t9 have sweep: "\<forall>t old. t \<noteq> ''tok_9'' \<and> pendingJoins ?hub t = Some old \<longrightarrow>
      pendingJoins (addPendingJoin 70000000000 ?hub ''tok_9'' ?new) t =
        (if 70000000000 - CreatedAt old > 60 * 1000000000 then None else Some old)"
    by blast
  from sweep [rule_format, of "''tok_1''" ?old] old
  have e: "pendingJoins (addPendingJoin 70000000000 ?hub ''tok_9'' ?new) ''tok_1'' = None" by simp
  from sweep [rule_format, of "''tok_2''" ?mid] mid
  have f: "pendingJoins (addPendingJoin 70000000000 ?hub ''tok_9'' ?new) ''tok_2'' = Some ?mid" by simp
  from none a b old exp c reg d e f show ?thesis by blast
qed



text \<open>
  The check after a player has left a room of two. Ann and bob are playing, both alive.
  When bob reports his death, the check finds 2 members and one alive: the match ends,
  ann is the winner with rank 1 and bob has rank 2. When bob's connection is lost
  instead, \<open>removePlayer\<close> deletes him before the check, which then finds 1 member,
  fewer than \<open>minPlayers\<close>: the room keeps playing with ann alone, no winner is set and
  no \<open>match_over\<close> is sent. The comment in \<open>removePlayer\<close> says that a player who
  leaves during play is marked dead; the statement before it deletes the player.
\<close>

lemma duo_room_death_ends_match:
  "(case handlePlayerDead duo_room (heap_of [ann False True '''' [], bob False True '''' []])
          ''player_2_2'' of
      (r', h') \<Rightarrow>
        phase r' = PhaseGameOver \<and> winnerID r' = ''player_1_1'' \<and>
        sendCh (h' 0) = [MsgMatchOver ''player_1_1'' ''ann'' 1] \<and>
        sendCh (h' 1) = [MsgMatchOver ''player_1_1'' ''ann'' 2])"
  by code_simp

lemma duo_room_leave_sends_nothing:
  "(case removePlayer duo_room (heap_of [ann False True '''' [], bob False True '''' []])
          ''player_2_2'' of
      (r', h') \<Rightarrow>
        phase r' = PhasePlaying \<and> winnerID r' = '''' \<and>
        players r' = [(''player_1_1'', 0)] \<and> Alive (h' 0) \<and>
        sendCh (h' 0) = [] \<and> sendCh (h' 1) = [])"
  by code_simp

theorem C10_witness:
  "room_ok (sample_room PhasePlaying)
     (heap_of [ann False False '''' [], bob False False '''' [], cat False False '''' []]) \<and>
   length (players (sample_room PhasePlaying)) \<ge> 2 \<and>
   filter (\<lambda>(k, p). Alive (heap_of [ann False False '''' [], bob False False '''' [],
                                     cat False False '''' []] p))
     (players (sample_room PhasePlaying)) = [] \<and>
   (\<exists>r' h'.
      checkWinCondition (sample_room PhasePlaying)
        (heap_of [ann False False '''' [], bob False False '''' [], cat False False '''' []])
        = (r', h') \<and>
      phase r' = PhaseGameOver \<and> winnerID r' = '''' \<and>
      sendCh (h' 0) = [MsgMatchOver '''' '''' 3] \<and>
      sendCh (h' 1) = [MsgMatchOver '''' '''' 3] \<and>
      sendCh (h' 2) = [MsgMatchOver '''' '''' 3])"
proof -
  let ?R = "sample_room PhasePlaying"
  let ?H = "heap_of [ann False False '''' [], bob False False '''' [], cat False False '''' []]"
  have ok: "room_ok ?R ?H" by (rule room_ok_sample) (simp_all add: sample_defs)
  have n: "length (players ?R) \<ge> 2" by (simp add: players_sample_room)
  have none: "filter (\<lambda>(k, p). Alive (?H p)) (players ?R) = []"
    by (simp add: players_sample_room sample_defs)
  from C10_match_over_without_winner [OF ok n none] obtain r' h' where
    c: "checkWinCondition ?R ?H = (r', h')" and ph: "phase r' = PhaseGameOver"
    and w: "winnerID r' = winnerID ?R"
    and all: "\<forall>(k, p) \<in> set (players ?R).
        h' p = send (?H p) (MsgMatchOver '''' '''' (int (length (players ?R))))"
    by blast
  from all have "h' 0 = send (?H 0) (MsgMatchOver '''' '''' 3)"
    and "h' 1 = send (?H 1) (MsgMatchOver '''' '''' 3)"
    and "h' 2 = send (?H 2) (MsgMatchOver '''' '''' 3)"
    by (simp_all add: players_sample_room)
  then have q: "sendCh (h' 0) = [MsgMatchOver '''' '''' 3]"
    "sendCh (h' 1) = [MsgMatchOver '''' '''' 3]"
    "sendCh (h' 2) = [MsgMatchOver '''' '''' 3]"
    by (simp_all add: send_def sendChCap_def sample_defs)
  from w have w': "winnerID r' = ''''" by (simp add: sample_room_def)
  from ok n none c ph w' q show ?thesis by blast
qed

text \<open>
  Claim C10 as written fails. None of the three players is alive, and cat's queue holds
  64 messages. The check sends cat's \<open>match_over\<close> to the full channel, which drops
  it: cat's queue is what it was, and it holds no \<open>match_over\<close>.
\<close>

theorem C10_counterexample:
  "room_ok (sample_room PhasePlaying)
     (heap_of [ann False False '''' [], bob False False '''' [], cat False False '''' full_queue]) \<and>
   length (players (sample_room PhasePlaying)) \<ge> 2 \<and>
   filter (\<lambda>(k, p). Alive (heap_of [ann False False '''' [], bob False False '''' [],
                                     cat False False '''' full_queue] p))
     (players (sample_room PhasePlaying)) = [] \<and>
   (''player_3_3'', 2) \<in> set (players (sample_room PhasePlaying)) \<and>
   sendCh (snd (checkWinCondition (sample_room PhasePlaying)
      (heap_of [ann False False '''' [], bob False False '''' [], cat False False '''' full_queue])) 2)
     = full_queue \<and>
   MsgMatchOver '''' '''' 3 \<notin> set full_queue"
proof -
  let ?R = "sample_room PhasePlaying"
  let ?H = "heap_of [ann False False '''' [], bob False False '''' [], cat False False '''' full_queue]"
  have ok: "room_ok ?R ?H" by (rule room_ok_sample) (simp_all add: sample_defs)
  have n: "length (players ?R) \<ge> 2" by (simp add: players_sample_room)
  have none: "filter (\<lambda>(k, p). Alive (?H p)) (players ?R) = []"
    by (simp add: players_sample_room sample_defs)
  have m: "(''player_3_3'', 2) \<in> set (players ?R)" by (simp add: players_sample_room)
  have q: "sendCh (snd (checkWinCondition ?R ?H) 2) = full_queue" by code_simp
  have x: "MsgMatchOver '''' '''' 3 \<notin> set full_queue" by (simp add: full_queue_def)
  from ok n none m q x show ?thesis by blast
qed

subsection \<open>Routing an attack\<close>

lemma candidates_set:
  "distinct (map fst (players r)) \<Longrightarrow>
     set (candidates r h attackerID) =
       {k. k \<noteq> attackerID \<and> (\<exists>p. map_of (players r) k = Some p \<and> Alive (h p))}"
  by (auto simp: candidates_def image_iff)

lemma candidates_distinct:
  "distinct (map fst (players r)) \<Longrightarrow> distinct (candidates r h attackerID)"
  unfolding candidates_def by (rule distinct_map_filter)

lemma candidates_member:
  assumes "distinct (map fst (players r))" and "c \<in> set (candidates r h attackerID)"
  shows "\<exists>pc. map_of (players r) c = Some pc \<and> Alive (h pc) \<and> c \<noteq> attackerID"
  using assms by (auto simp: candidates_set)

text \<open>The stored target, when it is kept.\<close>

lemma handleLinesCleared_target:
  assumes "map_of (players r) attackerID = Some a" and "0 < attackPower"
    and "TargetID (h a) \<noteq> ''''" and "map_of (players r) (TargetID (h a)) = Some pt"
    and "Alive (h pt)" and "TargetID (h a) \<noteq> attackerID"
  shows "handleLinesCleared intn g r h attackerID attackPower =
     Some (h(pt := send (h pt) (MsgReceiveGarbage attackPower attackerID)), g)"
  using assms by (simp add: handleLinesCleared_def Let_def)

text \<open>The fall back to a random candidate.\<close>

lemma handleLinesCleared_fallback:
  assumes "map_of (players r) attackerID = Some a" and "0 < attackPower"
    and nt: "\<not> (TargetID (h a) \<noteq> '''' \<and>
             (\<exists>pt. map_of (players r) (TargetID (h a)) = Some pt \<and> Alive (h pt)) \<and>
             TargetID (h a) \<noteq> attackerID)"
  shows "handleLinesCleared intn g r h attackerID attackPower =
     (let cs = candidates r h attackerID in
      if cs = [] then Some (h, g)
      else case index cs (fst (intn g (int (length cs)))) of
             None \<Rightarrow> None
           | Some c \<Rightarrow>
               (case map_of (players r) c of
                  None \<Rightarrow> Some (h, snd (intn g (int (length cs))))
                | Some target \<Rightarrow>
                    Some (h(target := send (h target) (MsgReceiveGarbage attackPower attackerID)),
                          snd (intn g (int (length cs))))))"
proof -
  have t1: "(if TargetID (h a) \<noteq> '''' then
               (case map_of (players r) (TargetID (h a)) of
                  None \<Rightarrow> ''''
                | Some t \<Rightarrow> if \<not> Alive (h t) \<or> TargetID (h a) = attackerID then ''''
                            else TargetID (h a))
             else TargetID (h a)) = ''''"
    using nt by (auto split: option.splits)
  show ?thesis
    using assms(1,2)
    by (simp add: handleLinesCleared_def Let_def t1 split: prod.splits option.splits)
qed

lemma handleLinesCleared_random:
  assumes ok: "room_ok r h" and c: "Intn_contract intn"
    and "map_of (players r) attackerID = Some a" and "0 < attackPower"
    and nt: "\<not> (TargetID (h a) \<noteq> '''' \<and>
             (\<exists>pt. map_of (players r) (TargetID (h a)) = Some pt \<and> Alive (h pt)) \<and>
             TargetID (h a) \<noteq> attackerID)"
    and ne: "candidates r h attackerID \<noteq> []"
  shows "\<exists>i pc. i = fst (intn g (int (length (candidates r h attackerID)))) \<and>
     0 \<le> i \<and> i < int (length (candidates r h attackerID)) \<and>
     map_of (players r) (candidates r h attackerID ! nat i) = Some pc \<and>
     Alive (h pc) \<and> candidates r h attackerID ! nat i \<noteq> attackerID \<and>
     handleLinesCleared intn g r h attackerID attackPower =
       Some (h(pc := send (h pc) (MsgReceiveGarbage attackPower attackerID)),
             snd (intn g (int (length (candidates r h attackerID)))))"
proof -
  let ?cs = "candidates r h attackerID"
  let ?i = "fst (intn g (int (length ?cs)))"
  from ne have "0 < int (length ?cs)" by simp
  with c have i: "0 \<le> ?i" "?i < int (length ?cs)"
    unfolding Intn_contract_def by blast+
  then have ix: "index ?cs ?i = Some (?cs ! nat ?i)" by (simp add: index_def)
  from i have "?cs ! nat ?i \<in> set ?cs" by (simp add: nat_less_iff)
  moreover from ok have d: "distinct (map fst (players r))" by (simp add: room_ok_def)
  ultimately obtain pc where
    pc: "map_of (players r) (?cs ! nat ?i) = Some pc" "Alive (h pc)" "?cs ! nat ?i \<noteq> attackerID"
    using candidates_member by blast
  have "handleLinesCleared intn g r h attackerID attackPower =
       Some (h(pc := send (h pc) (MsgReceiveGarbage attackPower attackerID)), snd (intn g (int (length ?cs))))"
    using handleLinesCleared_fallback [OF assms(3,4) nt, of intn g] ne ix pc(1)
    by (simp add: Let_def)
  with i pc show ?thesis by blast
qed

lemma handleLinesCleared_dropped:
  assumes "map_of (players r) attackerID = Some a" and "0 < attackPower"
    and nt: "\<not> (TargetID (h a) \<noteq> '''' \<and>
             (\<exists>pt. map_of (players r) (TargetID (h a)) = Some pt \<and> Alive (h pt)) \<and>
             TargetID (h a) \<noteq> attackerID)"
    and "candidates r h attackerID = []"
  shows "handleLinesCleared intn g r h attackerID attackPower = Some (h, g)"
  using handleLinesCleared_fallback [OF assms(1,2) nt, of intn g] assms(4)
  by (simp add: Let_def)

text \<open>
  Whatever the report, the function returns, and it changes the heap at most at a player
  that is in the room.
\<close>

lemma handleLinesCleared_frame:
  assumes ok: "room_ok r h" and c: "Intn_contract intn"
  shows "\<exists>h' g'. handleLinesCleared intn g r h attackerID attackPower = Some (h', g') \<and>
           (\<forall>x. x \<notin> snd ` set (players r) \<longrightarrow> h' x = h x)"
proof (cases "attackPower \<le> 0")
  case True
  then show ?thesis by (simp add: handleLinesCleared_def)
next
  case False
  then have pw: "0 < attackPower" by simp
  show ?thesis
  proof (cases "map_of (players r) attackerID")
    case None
    with False show ?thesis by (simp add: handleLinesCleared_def)
  next
    case (Some a)
    have upd: "\<forall>x. x \<notin> snd ` set (players r) \<longrightarrow> (h(q := v)) x = h x"
      if "map_of (players r) k = Some q" for k q v
    proof -
      from that have "(k, q) \<in> set (players r)" by (rule map_of_SomeD)
      then have "q \<in> snd ` set (players r)" by force
      then show ?thesis by auto
    qed
    show ?thesis
    proof (cases "TargetID (h a) \<noteq> '''' \<and>
             (\<exists>pt. map_of (players r) (TargetID (h a)) = Some pt \<and> Alive (h pt)) \<and>
             TargetID (h a) \<noteq> attackerID")
      case True
      then obtain pt where pt: "map_of (players r) (TargetID (h a)) = Some pt" "Alive (h pt)"
        by blast
      from handleLinesCleared_target [OF Some pw _ pt, of intn g] True upd [OF pt(1)]
      show ?thesis by simp
    next
      case nt: False
      show ?thesis
      proof (cases "candidates r h attackerID = []")
        case True
        from handleLinesCleared_dropped [OF Some pw nt True, of intn g] show ?thesis by simp
      next
        case False
        from handleLinesCleared_random [OF ok c Some pw nt False, of g] obtain i pc where
          "map_of (players r) (candidates r h attackerID ! nat i) = Some pc"
          "handleLinesCleared intn g r h attackerID attackPower =
             Some (h(pc := send (h pc) (MsgReceiveGarbage attackPower attackerID)),
                   snd (intn g (int (length (candidates r h attackerID)))))"
          by blast
        with upd [OF this(1)] show ?thesis by simp
      qed
    qed
  qed
qed

subsection \<open>A player leaves\<close>

lemma send_ranks_ID [simp]: "ID (send_ranks ps wid wname n h q) = ID (h q)"
proof (induction ps arbitrary: h)
  case Nil
  show ?case by simp
next
  case (Cons a ps)
  obtain k p where a: "a = (k, p)" by (cases a)
  define h1 where "h1 = h(p := send (h p) (MsgMatchOver wid wname (if ID (h p) = wid then 1 else n)))"
  have "ID (send_ranks (a # ps) wid wname n h q) = ID (send_ranks ps wid wname n h1 q)"
    by (simp only: a h1_def send_ranks.simps)
  also have "\<dots> = ID (h1 q)" by (rule Cons.IH)
  also have "\<dots> = ID (h q)" by (simp add: h1_def)
  finally show ?case .
qed

lemma checkWinCondition_players: "players (fst (checkWinCondition r h)) = players r"
  by (simp add: checkWinCondition_def Let_def)

lemma checkWinCondition_ID: "ID (snd (checkWinCondition r h) q) = ID (h q)"
  by (simp add: checkWinCondition_def Let_def)

lemma distinct_refs_key:
  assumes "distinct (map snd ps)" and "(k, p) \<in> set ps" and "(k', p) \<in> set ps"
  shows "k = k'"
proof -
  from assms(1) have "inj_on snd (set ps)" by (simp add: distinct_map)
  from inj_onD [OF this _ assms(2,3)] show ?thesis by simp
qed

lemma removePlayer_ok:
  assumes ok: "room_ok r h" and m: "map_of (players r) b = Some pb"
    and rm: "removePlayer r h b = (r2, h2)"
  shows "room_ok r2 h2" and "pb \<notin> snd ` set (players r2)"
    and "players r2 = AList.delete b (players r)"
proof -
  let ?r1 = "r\<lparr>players := AList.delete b (players r)\<rparr>"
  let ?h1 = "h(pb := (h pb)\<lparr>roomID := ''''\<rparr>)"
  from rm m have r2h2: "(r2, h2) = (if phase ?r1 = PhasePlaying then checkWinCondition ?r1 ?h1 else (?r1, ?h1))"
    by (simp add: removePlayer_def)
  have pl: "players r2 = AList.delete b (players r)"
  proof (cases "phase ?r1 = PhasePlaying")
    case True
    with r2h2 have "r2 = fst (checkWinCondition ?r1 ?h1)" by (metis fst_conv)
    then show ?thesis by (simp add: checkWinCondition_players)
  next
    case False
    with r2h2 show ?thesis by simp
  qed
  have id: "ID (h2 q) = ID (h q)" for q
  proof (cases "phase ?r1 = PhasePlaying")
    case True
    with r2h2 have "h2 = snd (checkWinCondition ?r1 ?h1)" by (metis snd_conv)
    then show ?thesis by (simp add: checkWinCondition_ID)
  next
    case False
    with r2h2 show ?thesis by simp
  qed
  from ok have d1: "distinct (map fst (players r))" and d2: "distinct (map snd (players r))"
    and ids: "\<forall>(k, p) \<in> set (players r). ID (h p) = k \<and> k \<noteq> ''''"
    by (simp_all add: room_ok_def)
  have sub: "set (AList.delete b (players r)) \<subseteq> set (players r)"
    by (auto simp: AList.delete_eq)
  have "distinct (map fst (AList.delete b (players r)))"
    using d1 by (rule AList.distinct_delete)
  moreover have "distinct (map snd (AList.delete b (players r)))"
    unfolding AList.delete_eq using d2 by (rule distinct_map_filter)
  moreover have "\<forall>(k, p) \<in> set (AList.delete b (players r)). ID (h2 p) = k \<and> k \<noteq> ''''"
    using ids sub id by auto
  ultimately show "room_ok r2 h2" by (simp add: room_ok_def pl)
  show "pb \<notin> snd ` set (players r2)"
  proof
    assume "pb \<in> snd ` set (players r2)"
    then obtain k where k: "(k, pb) \<in> set (AList.delete b (players r))" by (auto simp: pl)
    then have "k \<noteq> b" and "(k, pb) \<in> set (players r)" by (auto simp: AList.delete_eq)
    moreover from m have "(b, pb) \<in> set (players r)" by (rule map_of_SomeD)
    ultimately show False using distinct_refs_key [OF d2] by blast
  qed
  show "players r2 = AList.delete b (players r)" by (rule pl)
qed


subsection \<open>The lobby when a member leaves, and two ready messages at once\<close>

text \<open>
  The handler of a ready message as one step is the run of its frame alone, five
  statements in a row.
\<close>

lemma handleMsgReady_run:
  "handleMsgReady toUpper hub h p ready =
     snd (run_ready toUpper [0, 0, 0, 0, 0] [new_frame p ready] hub h)"
proof (cases "getRoom toUpper hub (roomID (h p))")
  case None
  then show ?thesis
    by (simp add: handleMsgReady_def ready_step_def new_frame_def)
next
  case (Some room)
  then have r: "rooms hub (toUpper (roomID (h p))) = Some room" by (simp add: getRoom_def)
  show ?thesis
    using Some r
    by (simp add: handleMsgReady_def ready_step_def new_frame_def Let_def)
qed

text \<open>
  Claim C6 does not hold of the server: the room is not in the countdown exactly when it
  has at least 2 members that are all ready. \<open>canStart\<close> is called in one place, the
  \<open>MsgReady\<close> case, and its answer is acted on in a later step.

  First, a room that comes to have at least 2 members, all ready, because a member
  leaves, stays in the lobby. Ann and bob are ready, cat is not, and cat sends
  \<open>leave_room\<close>: the room has the members ann and bob, both ready, \<open>canStart\<close> is
  true of it, and its phase is still the lobby. No statement of the server looks at it
  again until a member sends another ready message.

  Second, a room goes to the countdown with a member that is not ready. Bob and cat are
  ready; ann sends ready and bob sends not ready. Ann's handler runs up to \<open>canStart\<close>,
  which is true; bob's handler then runs from its first statement to its last, storing
  his flag and finding \<open>canStart\<close> false; ann's handler then calls
  \<open>startCountdown\<close>. The room is in the countdown, bob is not ready, and \<open>canStart\<close>
  is false of the room.
\<close>

theorem C6_countdown_out_of_step_with_ready:
  "(case handleMsgLeaveRoom (\<lambda>s. s) (sample_hub PhaseLobby)
          (heap_of [ann True True '''' [], bob True True '''' [], cat False True '''' []]) 2 of
      (hub1, h1) \<Rightarrow>
        map_option phase (getRoom (\<lambda>s. s) hub1 ''ABCDE'') = Some PhaseLobby \<and>
        map_option (\<lambda>room. map fst (players room)) (getRoom (\<lambda>s. s) hub1 ''ABCDE'')
          = Some [''player_1_1'', ''player_2_2''] \<and>
        Ready (h1 0) \<and> Ready (h1 1) \<and>
        map_option (\<lambda>room. canStart room h1) (getRoom (\<lambda>s. s) hub1 ''ABCDE'') = Some True) \<and>
   (case run_ready (\<lambda>s. s) [0, 0, 0, 0, 1, 1, 1, 1, 1, 0]
          [new_frame 0 True, new_frame 1 False] (sample_hub PhaseLobby)
          (heap_of [ann False True '''' [], bob True True '''' [], cat True True '''' []]) of
      (fs, hub1, h1) \<Rightarrow>
        map fr_at fs = [AtReturn, AtReturn] \<and>
        map_option phase (getRoom (\<lambda>s. s) hub1 ''ABCDE'') = Some PhaseCountdown \<and>
        map_option (\<lambda>room. map fst (players room)) (getRoom (\<lambda>s. s) hub1 ''ABCDE'')
          = Some [''player_1_1'', ''player_2_2'', ''player_3_3''] \<and>
        Ready (h1 0) \<and> \<not> Ready (h1 1) \<and> Ready (h1 2) \<and>
        map_option (\<lambda>room. canStart room h1) (getRoom (\<lambda>s. s) hub1 ''ABCDE'') = Some False)"
proof (rule conjI)
  show "case handleMsgLeaveRoom (\<lambda>s. s) (sample_hub PhaseLobby)
          (heap_of [ann True True '''' [], bob True True '''' [], cat False True '''' []]) 2 of
      (hub1, h1) \<Rightarrow>
        map_option phase (getRoom (\<lambda>s. s) hub1 ''ABCDE'') = Some PhaseLobby \<and>
        map_option (\<lambda>room. map fst (players room)) (getRoom (\<lambda>s. s) hub1 ''ABCDE'')
          = Some [''player_1_1'', ''player_2_2''] \<and>
        Ready (h1 0) \<and> Ready (h1 1) \<and>
        map_option (\<lambda>room. canStart room h1) (getRoom (\<lambda>s. s) hub1 ''ABCDE'') = Some True"
    by code_simp
  show "case run_ready (\<lambda>s. s) [0, 0, 0, 0, 1, 1, 1, 1, 1, 0]
          [new_frame 0 True, new_frame 1 False] (sample_hub PhaseLobby)
          (heap_of [ann False True '''' [], bob True True '''' [], cat True True '''' []]) of
      (fs, hub1, h1) \<Rightarrow>
        map fr_at fs = [AtReturn, AtReturn] \<and>
        map_option phase (getRoom (\<lambda>s. s) hub1 ''ABCDE'') = Some PhaseCountdown \<and>
        map_option (\<lambda>room. map fst (players room)) (getRoom (\<lambda>s. s) hub1 ''ABCDE'')
          = Some [''player_1_1'', ''player_2_2'', ''player_3_3''] \<and>
        Ready (h1 0) \<and> \<not> Ready (h1 1) \<and> Ready (h1 2) \<and>
        map_option (\<lambda>room. canStart room h1) (getRoom (\<lambda>s. s) hub1 ''ABCDE'') = Some False"
    by code_simp
qed

subsection \<open>The recipient of an attack\<close>

text \<open>
  What a send to the player at \<open>p\<close> does to the heap: no other player changes; the
  envelope is appended to the queue of \<open>p\<close> when the channel is open and holds fewer
  than 64 messages, and \<open>p\<close> is left as it was otherwise.
\<close>

lemma send_effect:
  "(\<forall>x. x \<noteq> p \<longrightarrow> (h(p := send (h p) env)) x = h x) \<and>
   (\<not> chClosed (h p) \<and> length (sendCh (h p)) < 64 \<longrightarrow>
      (h(p := send (h p) env)) p = (h p)\<lparr>sendCh := sendCh (h p) @ [env]\<rparr>) \<and>
   (chClosed (h p) \<or> length (sendCh (h p)) \<ge> 64 \<longrightarrow> (h(p := send (h p) env)) p = h p)"
  by (simp add: send_def sendChCap_def)

lemma routed_to:
  assumes "res = Some (h(p := send (h p) env), g')"
  shows "\<exists>h'. res = Some (h', g') \<and>
     (\<forall>x. x \<noteq> p \<longrightarrow> h' x = h x) \<and>
     (\<not> chClosed (h p) \<and> length (sendCh (h p)) < 64 \<longrightarrow>
        h' p = (h p)\<lparr>sendCh := sendCh (h p) @ [env]\<rparr>) \<and>
     (chClosed (h p) \<or> length (sendCh (h p)) \<ge> 64 \<longrightarrow> h' p = h p)"
proof -
  define h1 where "h1 = h(p := send (h p) env)"
  from send_effect [of p h env] have
    "(\<forall>x. x \<noteq> p \<longrightarrow> h1 x = h x) \<and>
     (\<not> chClosed (h p) \<and> length (sendCh (h p)) < 64 \<longrightarrow>
        h1 p = (h p)\<lparr>sendCh := sendCh (h p) @ [env]\<rparr>) \<and>
     (chClosed (h p) \<or> length (sendCh (h p)) \<ge> 64 \<longrightarrow> h1 p = h p)"
    unfolding h1_def .
  moreover from assms have "res = Some (h1, g')" unfolding h1_def .
  ultimately show ?thesis by (intro exI [of _ h1] conjI) blast+
qed

text \<open>
  In a list without duplicates an element stands at exactly one index: of the
  \<open>len(candidates)\<close> values that \<open>rand.Intn\<close> can return, exactly one selects a
  given candidate.
\<close>

lemma index_card_one:
  assumes "distinct xs" and "k \<in> set xs"
  shows "card {i. i < length xs \<and> xs ! i = k} = 1"
proof -
  from assms(2) obtain i where i: "i < length xs" "xs ! i = k"
    by (auto simp: in_set_conv_nth)
  have "j = i" if "j < length xs" "xs ! j = k" for j
  proof -
    from that(2) i(2) have "xs ! j = xs ! i" by simp
    with nth_eq_iff_index_eq [OF assms(1) that(1) i(1)] show ?thesis by blast
  qed
  then have "{j. j < length xs \<and> xs ! j = k} = {i}" using i by blast
  then show ?thesis by simp
qed

text \<open>
  Claim C9, as the code has it. A report with positive attack power from a member of the
  room is routed as follows. If the attacker's stored target is a member, alive and not
  the attacker, that target is the recipient and no random number is drawn. Otherwise,
  if there are alive members other than the attacker, the recipient is the candidate at
  the index that \<open>rand.Intn(len(candidates))\<close> returns; the candidates are exactly those
  members and each of them stands at exactly one index, so that each is selected by
  exactly one of the values of the draw. Otherwise nothing changes. The garbage message
  is appended to the queue of the recipient when that queue is open and holds fewer than
  64 messages; on a full or closed queue it is dropped, and the recipient and the heap
  are what they were. No player other than the recipient changes. And once a player has
  been removed from the room, a report is never routed to that player: its state after
  the report is its state before.
\<close>

theorem C9_attack_routing:
  assumes "room_ok r h" and "Intn_contract intn"
    and "map_of (players r) attackerID = Some a" and "0 < attackPower"
  shows
   "(\<forall>pt. TargetID (h a) \<noteq> '''' \<and> map_of (players r) (TargetID (h a)) = Some pt \<and>
          Alive (h pt) \<and> TargetID (h a) \<noteq> attackerID \<longrightarrow>
       (\<exists>h'. handleLinesCleared intn g r h attackerID attackPower = Some (h', g) \<and>
          (\<forall>x. x \<noteq> pt \<longrightarrow> h' x = h x) \<and>
          (\<not> chClosed (h pt) \<and> length (sendCh (h pt)) < 64 \<longrightarrow>
             h' pt = (h pt)\<lparr>sendCh := sendCh (h pt) @
                                [MsgReceiveGarbage attackPower attackerID]\<rparr>) \<and>
          (chClosed (h pt) \<or> length (sendCh (h pt)) \<ge> 64 \<longrightarrow> h' pt = h pt))) \<and>
    (\<not> (TargetID (h a) \<noteq> '''' \<and>
         (\<exists>pt. map_of (players r) (TargetID (h a)) = Some pt \<and> Alive (h pt)) \<and>
         TargetID (h a) \<noteq> attackerID) \<longrightarrow>
       (candidates r h attackerID \<noteq> [] \<longrightarrow>
          (\<exists>i pc h'. i = fst (intn g (int (length (candidates r h attackerID)))) \<and>
             0 \<le> i \<and> i < int (length (candidates r h attackerID)) \<and>
             map_of (players r) (candidates r h attackerID ! nat i) = Some pc \<and>
             Alive (h pc) \<and> candidates r h attackerID ! nat i \<noteq> attackerID \<and>
             handleLinesCleared intn g r h attackerID attackPower =
               Some (h', snd (intn g (int (length (candidates r h attackerID))))) \<and>
             (\<forall>x. x \<noteq> pc \<longrightarrow> h' x = h x) \<and>
             (\<not> chClosed (h pc) \<and> length (sendCh (h pc)) < 64 \<longrightarrow>
                h' pc = (h pc)\<lparr>sendCh := sendCh (h pc) @
                                   [MsgReceiveGarbage attackPower attackerID]\<rparr>) \<and>
             (chClosed (h pc) \<or> length (sendCh (h pc)) \<ge> 64 \<longrightarrow> h' pc = h pc))) \<and>
       (candidates r h attackerID = [] \<longrightarrow>
          handleLinesCleared intn g r h attackerID attackPower = Some (h, g))) \<and>
    distinct (candidates r h attackerID) \<and>
    set (candidates r h attackerID) =
      {k. k \<noteq> attackerID \<and> (\<exists>p. map_of (players r) k = Some p \<and> Alive (h p))} \<and>
    (\<forall>k. k \<noteq> attackerID \<and> (\<exists>p. map_of (players r) k = Some p \<and> Alive (h p)) \<longrightarrow>
       card {i. i < length (candidates r h attackerID) \<and>
                candidates r h attackerID ! i = k} = 1) \<and>
    (\<forall>b pb r2 h2. map_of (players r) b = Some pb \<and> removePlayer r h b = (r2, h2) \<longrightarrow>
       (\<exists>h3 g3. handleLinesCleared intn g r2 h2 attackerID attackPower = Some (h3, g3) \<and>
          h3 pb = h2 pb))"
proof -
  let ?env = "MsgReceiveGarbage attackPower attackerID"
  let ?cs = "candidates r h attackerID"
  from assms(1) have d: "distinct (map fst (players r))" by (simp add: room_ok_def)
  have A: "\<exists>h'. handleLinesCleared intn g r h attackerID attackPower = Some (h', g) \<and>
          (\<forall>x. x \<noteq> pt \<longrightarrow> h' x = h x) \<and>
          (\<not> chClosed (h pt) \<and> length (sendCh (h pt)) < 64 \<longrightarrow>
             h' pt = (h pt)\<lparr>sendCh := sendCh (h pt) @ [?env]\<rparr>) \<and>
          (chClosed (h pt) \<or> length (sendCh (h pt)) \<ge> 64 \<longrightarrow> h' pt = h pt)"
    if "TargetID (h a) \<noteq> '''' \<and> map_of (players r) (TargetID (h a)) = Some pt \<and>
          Alive (h pt) \<and> TargetID (h a) \<noteq> attackerID" for pt
  proof -
    from that have t: "TargetID (h a) \<noteq> ''''" "map_of (players r) (TargetID (h a)) = Some pt"
      "Alive (h pt)" "TargetID (h a) \<noteq> attackerID" by simp_all
    show ?thesis
      by (rule routed_to, rule handleLinesCleared_target [OF assms(3,4) t])
  qed
  have B: "\<exists>i pc h'. i = fst (intn g (int (length ?cs))) \<and>
             0 \<le> i \<and> i < int (length ?cs) \<and>
             map_of (players r) (?cs ! nat i) = Some pc \<and>
             Alive (h pc) \<and> ?cs ! nat i \<noteq> attackerID \<and>
             handleLinesCleared intn g r h attackerID attackPower =
               Some (h', snd (intn g (int (length ?cs)))) \<and>
             (\<forall>x. x \<noteq> pc \<longrightarrow> h' x = h x) \<and>
             (\<not> chClosed (h pc) \<and> length (sendCh (h pc)) < 64 \<longrightarrow>
                h' pc = (h pc)\<lparr>sendCh := sendCh (h pc) @ [?env]\<rparr>) \<and>
             (chClosed (h pc) \<or> length (sendCh (h pc)) \<ge> 64 \<longrightarrow> h' pc = h pc)"
    if nt: "\<not> (TargetID (h a) \<noteq> '''' \<and>
         (\<exists>pt. map_of (players r) (TargetID (h a)) = Some pt \<and> Alive (h pt)) \<and>
         TargetID (h a) \<noteq> attackerID)"
      and ne: "?cs \<noteq> []"
  proof -
    from handleLinesCleared_random [OF assms nt ne, of g] obtain i pc where
      i: "i = fst (intn g (int (length ?cs)))" "0 \<le> i" "i < int (length ?cs)"
      and pc: "map_of (players r) (?cs ! nat i) = Some pc" "Alive (h pc)"
        "?cs ! nat i \<noteq> attackerID"
      and e: "handleLinesCleared intn g r h attackerID attackPower =
         Some (h(pc := send (h pc) ?env), snd (intn g (int (length ?cs))))"
      by blast
    from routed_to [OF e] obtain h' where
      "handleLinesCleared intn g r h attackerID attackPower =
         Some (h', snd (intn g (int (length ?cs))))"
      "\<forall>x. x \<noteq> pc \<longrightarrow> h' x = h x"
      "\<not> chClosed (h pc) \<and> length (sendCh (h pc)) < 64 \<longrightarrow>
         h' pc = (h pc)\<lparr>sendCh := sendCh (h pc) @ [?env]\<rparr>"
      "chClosed (h pc) \<or> length (sendCh (h pc)) \<ge> 64 \<longrightarrow> h' pc = h pc"
      by blast
    with i pc show ?thesis by (intro exI [of _ i] exI [of _ pc] exI [of _ h'] conjI)
  qed
  have C: "handleLinesCleared intn g r h attackerID attackPower = Some (h, g)"
    if "\<not> (TargetID (h a) \<noteq> '''' \<and>
         (\<exists>pt. map_of (players r) (TargetID (h a)) = Some pt \<and> Alive (h pt)) \<and>
         TargetID (h a) \<noteq> attackerID)"
      and "?cs = []"
    by (rule handleLinesCleared_dropped [OF assms(3,4) that])
  have D1: "distinct ?cs" by (rule candidates_distinct [OF d])
  have D2: "set ?cs =
      {k. k \<noteq> attackerID \<and> (\<exists>p. map_of (players r) k = Some p \<and> Alive (h p))}"
    by (rule candidates_set [OF d])
  have D3: "card {i. i < length ?cs \<and> ?cs ! i = k} = 1"
    if "k \<noteq> attackerID \<and> (\<exists>p. map_of (players r) k = Some p \<and> Alive (h p))" for k
  proof -
    from that have "k \<in> set ?cs" unfolding D2 by simp
    then show ?thesis by (rule index_card_one [OF D1])
  qed
  have E: "\<exists>h3 g3. handleLinesCleared intn g r2 h2 attackerID attackPower = Some (h3, g3) \<and>
          h3 pb = h2 pb"
    if "map_of (players r) b = Some pb \<and> removePlayer r h b = (r2, h2)" for b pb r2 h2
  proof -
    from that have m: "map_of (players r) b = Some pb" and rm: "removePlayer r h b = (r2, h2)"
      by simp_all
    note ok2 = removePlayer_ok(1) [OF assms(1) m rm] and out = removePlayer_ok(2) [OF assms(1) m rm]
    from handleLinesCleared_frame [OF ok2 assms(2), of g attackerID attackPower] obtain h3 g3 where
      "handleLinesCleared intn g r2 h2 attackerID attackPower = Some (h3, g3)"
      "\<forall>x. x \<notin> snd ` set (players r2) \<longrightarrow> h3 x = h2 x"
      by blast
    with out show ?thesis by blast
  qed
  show ?thesis
  proof (intro conjI)
    show "\<forall>pt. TargetID (h a) \<noteq> '''' \<and> map_of (players r) (TargetID (h a)) = Some pt \<and>
          Alive (h pt) \<and> TargetID (h a) \<noteq> attackerID \<longrightarrow>
       (\<exists>h'. handleLinesCleared intn g r h attackerID attackPower = Some (h', g) \<and>
          (\<forall>x. x \<noteq> pt \<longrightarrow> h' x = h x) \<and>
          (\<not> chClosed (h pt) \<and> length (sendCh (h pt)) < 64 \<longrightarrow>
             h' pt = (h pt)\<lparr>sendCh := sendCh (h pt) @ [?env]\<rparr>) \<and>
          (chClosed (h pt) \<or> length (sendCh (h pt)) \<ge> 64 \<longrightarrow> h' pt = h pt))"
      by (intro allI impI, rule A)
    show "\<not> (TargetID (h a) \<noteq> '''' \<and>
         (\<exists>pt. map_of (players r) (TargetID (h a)) = Some pt \<and> Alive (h pt)) \<and>
         TargetID (h a) \<noteq> attackerID) \<longrightarrow>
       (?cs \<noteq> [] \<longrightarrow>
          (\<exists>i pc h'. i = fst (intn g (int (length ?cs))) \<and>
             0 \<le> i \<and> i < int (length ?cs) \<and>
             map_of (players r) (?cs ! nat i) = Some pc \<and>
             Alive (h pc) \<and> ?cs ! nat i \<noteq> attackerID \<and>
             handleLinesCleared intn g r h attackerID attackPower =
               Some (h', snd (intn g (int (length ?cs)))) \<and>
             (\<forall>x. x \<noteq> pc \<longrightarrow> h' x = h x) \<and>
             (\<not> chClosed (h pc) \<and> length (sendCh (h pc)) < 64 \<longrightarrow>
                h' pc = (h pc)\<lparr>sendCh := sendCh (h pc) @ [?env]\<rparr>) \<and>
             (chClosed (h pc) \<or> length (sendCh (h pc)) \<ge> 64 \<longrightarrow> h' pc = h pc))) \<and>
       (?cs = [] \<longrightarrow>
          handleLinesCleared intn g r h attackerID attackPower = Some (h, g))"
      by (intro impI conjI; (rule B | rule C); assumption)
    show "distinct ?cs" by (rule D1)
    show "set ?cs =
      {k. k \<noteq> attackerID \<and> (\<exists>p. map_of (players r) k = Some p \<and> Alive (h p))}"
      by (rule D2)
    show "\<forall>k. k \<noteq> attackerID \<and> (\<exists>p. map_of (players r) k = Some p \<and> Alive (h p)) \<longrightarrow>
       card {i. i < length ?cs \<and> ?cs ! i = k} = 1"
      by (intro allI impI, rule D3)
    show "\<forall>b pb r2 h2. map_of (players r) b = Some pb \<and> removePlayer r h b = (r2, h2) \<longrightarrow>
       (\<exists>h3 g3. handleLinesCleared intn g r2 h2 attackerID attackPower = Some (h3, g3) \<and>
          h3 pb = h2 pb)"
      by (intro allI impI, rule E)
  qed
qed

lemma map_of_sample_room:
  "map_of (players (sample_room ph)) ''player_1_1'' = Some 0"
  "map_of (players (sample_room ph)) ''player_2_2'' = Some 1"
  "map_of (players (sample_room ph)) ''player_3_3'' = Some 2"
  by (simp_all add: players_sample_room)

theorem C9_witness:
  "room_ok (sample_room PhasePlaying)
     (heap_of [ann False True ''player_2_2'' [], bob False True '''' [], cat False True '''' []]) \<and>
   Intn_contract lcg_intn \<and>
   map_of (players (sample_room PhasePlaying)) ''player_1_1'' = Some 0 \<and> (0::int) < 4 \<and>
   (\<exists>h'. handleLinesCleared lcg_intn 7 (sample_room PhasePlaying)
        (heap_of [ann False True ''player_2_2'' [], bob False True '''' [], cat False True '''' []])
        ''player_1_1'' 4 = Some (h', 7) \<and>
      sendCh (h' 0) = [] \<and>
      sendCh (h' 1) = [MsgReceiveGarbage 4 ''player_1_1''] \<and>
      sendCh (h' 2) = []) \<and>
   fst (lcg_intn 7 2) = 1 \<and>
   candidates (sample_room PhasePlaying)
     (heap_of [ann False True '''' [], bob False True '''' [], cat False True '''' []])
     ''player_1_1'' = [''player_2_2'', ''player_3_3''] \<and>
   (\<exists>h'. handleLinesCleared lcg_intn 7 (sample_room PhasePlaying)
        (heap_of [ann False True '''' [], bob False True '''' [], cat False True '''' []])
        ''player_1_1'' 4 = Some (h', snd (lcg_intn 7 2)) \<and>
      sendCh (h' 0) = [] \<and>
      sendCh (h' 1) = [] \<and>
      sendCh (h' 2) = [MsgReceiveGarbage 4 ''player_1_1'']) \<and>
   card {i. i < length [''player_2_2'', ''player_3_3''] \<and>
            [''player_2_2'', ''player_3_3''] ! i = ''player_3_3''} = 1 \<and>
   handleLinesCleared lcg_intn 7 (sample_room PhasePlaying)
     (heap_of [ann False True ''player_2_2'' [], bob False False '''' [], cat False False '''' []])
     ''player_1_1'' 4 =
     Some (heap_of [ann False True ''player_2_2'' [], bob False False '''' [], cat False False '''' []], 7) \<and>
   (\<exists>r2 h2 h3 g3.
      removePlayer (sample_room PhasePlaying)
        (heap_of [ann False True ''player_2_2'' [], bob False True '''' [], cat False True '''' []])
        ''player_2_2'' = (r2, h2) \<and>
      handleLinesCleared lcg_intn 7 r2 h2 ''player_1_1'' 4 = Some (h3, g3) \<and> h3 1 = h2 1)"
proof -
  let ?R = "sample_room PhasePlaying"
  let ?H1 = "heap_of [ann False True ''player_2_2'' [], bob False True '''' [], cat False True '''' []]"
  let ?H2 = "heap_of [ann False True '''' [], bob False True '''' [], cat False True '''' []]"
  let ?H3 = "heap_of [ann False True ''player_2_2'' [], bob False False '''' [], cat False False '''' []]"
  let ?env = "MsgReceiveGarbage 4 ''player_1_1''"
  have ok1: "room_ok ?R ?H1" by (rule room_ok_sample) (simp_all add: sample_defs)
  have ok2: "room_ok ?R ?H2" by (rule room_ok_sample) (simp_all add: sample_defs)
  have ok3: "room_ok ?R ?H3" by (rule room_ok_sample) (simp_all add: sample_defs)
  note m = map_of_sample_room(1) [of PhasePlaying]
  have pw: "(0::int) < 4" by simp
  note T1 = C9_attack_routing [OF ok1 lcg_contract m pw, of 7]
  note T2 = C9_attack_routing [OF ok2 lcg_contract m pw, of 7]
  note T3 = C9_attack_routing [OF ok3 lcg_contract m pw, of 7]
  have v: "TargetID (?H1 0) \<noteq> '''' \<and> map_of (players ?R) (TargetID (?H1 0)) = Some 1 \<and>
          Alive (?H1 1) \<and> TargetID (?H1 0) \<noteq> ''player_1_1''"
    by (simp add: sample_defs players_sample_room)
  from T1 have "\<forall>pt. TargetID (?H1 0) \<noteq> '''' \<and> map_of (players ?R) (TargetID (?H1 0)) = Some pt \<and>
          Alive (?H1 pt) \<and> TargetID (?H1 0) \<noteq> ''player_1_1'' \<longrightarrow>
       (\<exists>h'. handleLinesCleared lcg_intn 7 ?R ?H1 ''player_1_1'' 4 = Some (h', 7) \<and>
          (\<forall>x. x \<noteq> pt \<longrightarrow> h' x = ?H1 x) \<and>
          (\<not> chClosed (?H1 pt) \<and> length (sendCh (?H1 pt)) < 64 \<longrightarrow>
             h' pt = (?H1 pt)\<lparr>sendCh := sendCh (?H1 pt) @ [?env]\<rparr>) \<and>
          (chClosed (?H1 pt) \<or> length (sendCh (?H1 pt)) \<ge> 64 \<longrightarrow> h' pt = ?H1 pt))"
    by (rule conjunct1)
  from this [rule_format, OF v] obtain h1 where
    e1: "handleLinesCleared lcg_intn 7 ?R ?H1 ''player_1_1'' 4 = Some (h1, 7)"
    and f1: "\<forall>x. x \<noteq> 1 \<longrightarrow> h1 x = ?H1 x"
    and q1: "\<not> chClosed (?H1 1) \<and> length (sendCh (?H1 1)) < 64 \<longrightarrow>
             h1 1 = (?H1 1)\<lparr>sendCh := sendCh (?H1 1) @ [?env]\<rparr>"
    by blast
  from f1 have "h1 0 = ?H1 0" "h1 2 = ?H1 2" by simp_all
  then have s1: "sendCh (h1 0) = []" "sendCh (h1 2) = []" by (simp_all add: sample_defs)
  from q1 have s1': "sendCh (h1 1) = [?env]" by (simp add: sample_defs)
  from e1 s1 s1' have A: "\<exists>h'. handleLinesCleared lcg_intn 7 ?R ?H1 ''player_1_1'' 4 = Some (h', 7) \<and>
      sendCh (h' 0) = [] \<and> sendCh (h' 1) = [?env] \<and> sendCh (h' 2) = []"
    by blast
  have nv2: "\<not> (TargetID (?H2 0) \<noteq> '''' \<and>
         (\<exists>pt. map_of (players ?R) (TargetID (?H2 0)) = Some pt \<and> Alive (?H2 pt)) \<and>
         TargetID (?H2 0) \<noteq> ''player_1_1'')"
    by (simp add: sample_defs)
  have cs2: "candidates ?R ?H2 ''player_1_1'' = [''player_2_2'', ''player_3_3'']"
    by (simp add: candidates_def players_sample_room sample_defs)
  have dr: "fst (lcg_intn 7 2) = 1" by (simp add: lcg_intn_def)
  from T2 nv2 cs2 obtain i pc h2 where
    i: "i = fst (lcg_intn 7 2)"
    and pc: "map_of (players ?R) ([''player_2_2'', ''player_3_3''] ! nat i) = Some pc"
    and e2: "handleLinesCleared lcg_intn 7 ?R ?H2 ''player_1_1'' 4 = Some (h2, snd (lcg_intn 7 2))"
    and f2: "\<forall>x. x \<noteq> pc \<longrightarrow> h2 x = ?H2 x"
    and q2: "\<not> chClosed (?H2 pc) \<and> length (sendCh (?H2 pc)) < 64 \<longrightarrow>
                h2 pc = (?H2 pc)\<lparr>sendCh := sendCh (?H2 pc) @ [?env]\<rparr>"
    by auto
  from i dr pc have pc2: "pc = 2" by (simp add: players_sample_room)
  from f2 have "h2 0 = ?H2 0" "h2 1 = ?H2 1" unfolding pc2 by simp_all
  then have s2: "sendCh (h2 0) = []" "sendCh (h2 1) = []" by (simp_all add: sample_defs)
  from q2 have s2': "sendCh (h2 2) = [?env]" unfolding pc2 by (simp add: sample_defs)
  from e2 s2 s2' have B: "\<exists>h'. handleLinesCleared lcg_intn 7 ?R ?H2 ''player_1_1'' 4 =
        Some (h', snd (lcg_intn 7 2)) \<and>
      sendCh (h' 0) = [] \<and> sendCh (h' 1) = [] \<and> sendCh (h' 2) = [?env]"
    by blast
  have al: "''player_3_3'' \<noteq> ''player_1_1'' \<and>
      (\<exists>p. map_of (players ?R) ''player_3_3'' = Some p \<and> Alive (?H2 p))"
    by (simp add: players_sample_room sample_defs)
  from T2 have "\<forall>k. k \<noteq> ''player_1_1'' \<and> (\<exists>p. map_of (players ?R) k = Some p \<and> Alive (?H2 p)) \<longrightarrow>
       card {i. i < length (candidates ?R ?H2 ''player_1_1'') \<and>
                candidates ?R ?H2 ''player_1_1'' ! i = k} = 1"
    by (elim conjE)
  from this [rule_format, OF al]
  have U: "card {i. i < length [''player_2_2'', ''player_3_3''] \<and>
            [''player_2_2'', ''player_3_3''] ! i = ''player_3_3''} = 1"
    unfolding cs2 .
  have nv3: "\<not> (TargetID (?H3 0) \<noteq> '''' \<and>
         (\<exists>pt. map_of (players ?R) (TargetID (?H3 0)) = Some pt \<and> Alive (?H3 pt)) \<and>
         TargetID (?H3 0) \<noteq> ''player_1_1'')"
    by (simp add: sample_defs players_sample_room)
  have cs3: "candidates ?R ?H3 ''player_1_1'' = []"
    by (simp add: candidates_def players_sample_room sample_defs)
  from T3 nv3 cs3
  have C: "handleLinesCleared lcg_intn 7 ?R ?H3 ''player_1_1'' 4 = Some (?H3, 7)"
    by blast
  obtain r2 h2' where rm: "removePlayer ?R ?H1 ''player_2_2'' = (r2, h2')"
    by (cases "removePlayer ?R ?H1 ''player_2_2''")
  from T1 have "\<forall>b pb r2 h2. map_of (players ?R) b = Some pb \<and> removePlayer ?R ?H1 b = (r2, h2) \<longrightarrow>
       (\<exists>h3 g3. handleLinesCleared lcg_intn 7 r2 h2 ''player_1_1'' 4 = Some (h3, g3) \<and>
          h3 pb = h2 pb)"
    by (elim conjE)
  from this [rule_format, of "''player_2_2''" 1 r2 h2'] map_of_sample_room(2) [of PhasePlaying] rm
  have E: "\<exists>r2 h2 h3 g3. removePlayer ?R ?H1 ''player_2_2'' = (r2, h2) \<and>
      handleLinesCleared lcg_intn 7 r2 h2 ''player_1_1'' 4 = Some (h3, g3) \<and> h3 1 = h2 1"
    by blast
  from ok1 lcg_contract m pw A dr cs2 B U C E show ?thesis by (intro conjI)
qed

text \<open>
  Claim C9 as written fails. Ann's stored target is bob, who is a member, alive and not
  the attacker, and whose queue holds 64 messages. Ann's report of 4 lines is sent to
  bob's full channel, which drops it: the attack reaches nobody, although an alive
  opponent exists. Every queue is what it was, and none holds the garbage message.
\<close>

theorem C9_counterexample:
  "map_of (players (sample_room PhasePlaying)) ''player_1_1'' = Some 0 \<and>
   TargetID (heap_of [ann False True ''player_2_2'' [], bob False True '''' full_queue,
                      cat False True '''' []] 0) = ''player_2_2'' \<and>
   map_of (players (sample_room PhasePlaying)) ''player_2_2'' = Some 1 \<and>
   Alive (heap_of [ann False True ''player_2_2'' [], bob False True '''' full_queue,
                   cat False True '''' []] 1) \<and>
   map_option (\<lambda>(h', g'). (sendCh (h' 0), sendCh (h' 1), sendCh (h' 2), g'))
     (handleLinesCleared lcg_intn 7 (sample_room PhasePlaying)
        (heap_of [ann False True ''player_2_2'' [], bob False True '''' full_queue,
                  cat False True '''' []])
        ''player_1_1'' 4) = Some ([], full_queue, [], 7) \<and>
   MsgReceiveGarbage 4 ''player_1_1'' \<notin> set full_queue"
proof -
  let ?R = "sample_room PhasePlaying"
  let ?H = "heap_of [ann False True ''player_2_2'' [], bob False True '''' full_queue,
                     cat False True '''' []]"
  have t: "TargetID (?H 0) = ''player_2_2''" "Alive (?H 1)" by (simp_all add: sample_defs)
  have q: "map_option (\<lambda>(h', g'). (sendCh (h' 0), sendCh (h' 1), sendCh (h' 2), g'))
     (handleLinesCleared lcg_intn 7 ?R ?H ''player_1_1'' 4) = Some ([], full_queue, [], 7)"
    by code_simp
  have x: "MsgReceiveGarbage 4 ''player_1_1'' \<notin> set full_queue" by (simp add: full_queue_def)
  from map_of_sample_room(1) [of PhasePlaying] map_of_sample_room(2) [of PhasePlaying] t q x
  show ?thesis by (intro conjI)
qed

section \<open>The in-process lobby of package player\<close>

text \<open>
  Package \<open>player\<close> keeps the lobby of the in-process match engine of package
  \<open>server\<close>. The room server above does not import either package: it routes attacks
  with \<open>handleLinesCleared\<close>. The lobby's \<open>GetRandomAliveTarget\<close> collects the ids of
  the players that are alive and are not \<open>excludeID\<close>, returns the empty string when
  there is none, and otherwise returns \<open>alive[len(alive) % len(alive)]\<close>.
\<close>

record LobbyPlayer =
  ID :: string
  Name :: string
  Ready :: bool
  IsAlive :: bool
  AttackTarget :: string
  Kills :: int

record Lobby =
  players :: "(string \<times> LobbyPlayer) list"

definition GetRandomAliveTarget :: "Lobby \<Rightarrow> string \<Rightarrow> string option" where
  "GetRandomAliveTarget l excludeID =
     (let alive = map (\<lambda>(k, p). LobbyPlayer.ID p)
                    (filter (\<lambda>(k, p). IsAlive p \<and> LobbyPlayer.ID p \<noteq> excludeID)
                       (Lobby.players l))
      in if length alive = 0 then Some ''''
         else index alive (int (length alive) mod int (length alive)))"

text \<open>
  The remainder of a number by itself is 0: the function returns the first alive player
  that the loop over the map has met, whatever the number of alive players.
\<close>

lemma GetRandomAliveTarget_first:
  "GetRandomAliveTarget l excludeID =
     Some (case map (\<lambda>(k, p). LobbyPlayer.ID p)
                 (filter (\<lambda>(k, p). IsAlive p \<and> LobbyPlayer.ID p \<noteq> excludeID)
                    (Lobby.players l)) of
             [] \<Rightarrow> ''''
           | first # others \<Rightarrow> first)"
proof -
  define alive where "alive = map (\<lambda>(k, p). LobbyPlayer.ID p)
                 (filter (\<lambda>(k, p). IsAlive p \<and> LobbyPlayer.ID p \<noteq> excludeID)
                    (Lobby.players l))"
  have "GetRandomAliveTarget l excludeID =
      (if length alive = 0 then Some ''''
       else index alive (int (length alive) mod int (length alive)))"
    by (simp add: GetRandomAliveTarget_def alive_def Let_def)
  also have "\<dots> = Some (case alive of [] \<Rightarrow> '''' | first # others \<Rightarrow> first)"
    by (cases alive) (simp_all add: index_def)
  finally show ?thesis unfolding alive_def .
qed

end
